theory Spec2Isabelle
  imports Main "HOL-Library.Word"
begin

section \<open>SequenceTester: the mock camera and XY stage of SequenceTester.cpp\<close>

subsection \<open>Result codes\<close>

text \<open>
  The device functions return the integer codes of the device interface. Their numeric
  values are declared outside SequenceTester.cpp, and the code only ever tests them for
  equality (\<^verbatim>\<open>err != DEVICE_OK\<close>, \<^verbatim>\<open>err == DEVICE_BUFFER_OVERFLOW\<close>), so they are
  the constructors of a datatype; \<open>DEVICE_OTHER n\<close> stands for any further code a
  collaborator may return.
\<close>

datatype result_code =
    DEVICE_OK
  | DEVICE_ERR
  | DEVICE_UNSUPPORTED_COMMAND
  | DEVICE_BUFFER_OVERFLOW
  | DEVICE_OTHER nat

subsection \<open>The images a camera produces\<close>

text \<open>
  \<^verbatim>\<open>GenerateLogImage(isSequenceImage, cumulativeCount, localCount)\<close> allocates
  \<^verbatim>\<open>GetImageBufferSize()\<close> bytes and hands them to the logger's \<^verbatim>\<open>PackAndReset\<close>
  together with the device name and its three arguments. An image is represented by what
  it is asked to embed. The two counts are \<^verbatim>\<open>size_t\<close> (64 bits).
\<close>

record log_image =
  im_isSequenceImage :: bool
  im_cumulativeCount :: "64 word"
  im_localCount :: "64 word"

text \<open>
  \<^verbatim>\<open>GetImageWidth\<close>, \<^verbatim>\<open>GetImageHeight\<close> and \<^verbatim>\<open>GetImageBytesPerPixel\<close> return
  \<^verbatim>\<open>unsigned\<close> (32 bits); the last is declared outside SequenceTester.cpp and is a
  parameter. \<^verbatim>\<open>GetImageBufferSize\<close> multiplies the three as \<^verbatim>\<open>unsigned\<close>, so the
  product wraps at \<open>2 ^ 32\<close>, and only then makes it a \<^verbatim>\<open>long\<close>.
\<close>

definition GetImageWidth :: "32 word" where
  "GetImageWidth = 128"

definition GetImageHeight :: "32 word" where
  "GetImageHeight = 128"

definition GetImageBufferSize :: "32 word \<Rightarrow> int" where
  "GetImageBufferSize bytesPerPixel = uint (GetImageWidth * GetImageHeight * bytesPerPixel)"

definition GenerateLogImage :: "bool \<Rightarrow> 64 word \<Rightarrow> 64 word \<Rightarrow> log_image" where
  "GenerateLogImage isSequenceImage cumulativeCount localCount =
     \<lparr>im_isSequenceImage = isSequenceImage,
      im_cumulativeCount = cumulativeCount,
      im_localCount = localCount\<rparr>"

subsection \<open>The core callback\<close>

text \<open>
  The camera talks to the host through \<^verbatim>\<open>GetCoreCallback()\<close>. The host is not part of
  the adapter: it is a script of the codes its \<^verbatim>\<open>InsertImage\<close> will return, call after
  call (\<open>DEVICE_OK\<close> once the script is used up), the code of its \<^verbatim>\<open>AcqFinished\<close>,
  and the record of the calls made to it, oldest first. The boolean of an
  \<open>InsertImageCall\<close> stands for the seventh argument of \<^verbatim>\<open>InsertImage\<close>: \<open>False\<close> for a
  call that passes \<^verbatim>\<open>false\<close>, \<open>True\<close> for a call that passes none.
\<close>

datatype core_call =
    PrepareForAcqCall
  | InsertImageCall log_image bool
  | ClearImageBufferCall
  | AcqFinishedCall

record core =
  insert_script :: "result_code list"
  finished_code :: result_code
  core_calls :: "core_call list"

definition PrepareForAcq :: "core \<Rightarrow> core" where
  "PrepareForAcq c = c\<lparr>core_calls := core_calls c @ [PrepareForAcqCall]\<rparr>"

definition InsertImage :: "log_image \<Rightarrow> bool \<Rightarrow> core \<Rightarrow> result_code \<times> core" where
  "InsertImage img flag c =
     (case insert_script c of
        [] \<Rightarrow> (DEVICE_OK, c\<lparr>core_calls := core_calls c @ [InsertImageCall img flag]\<rparr>)
      | r # rs \<Rightarrow>
          (r, c\<lparr>insert_script := rs,
                 core_calls := core_calls c @ [InsertImageCall img flag]\<rparr>))"

definition ClearImageBuffer :: "core \<Rightarrow> core" where
  "ClearImageBuffer c = c\<lparr>core_calls := core_calls c @ [ClearImageBufferCall]\<rparr>"

definition AcqFinished :: "core \<Rightarrow> result_code \<times> core" where
  "AcqFinished c = (finished_code c, c\<lparr>core_calls := core_calls c @ [AcqFinishedCall]\<rparr>)"

text \<open>A host that has not been called yet and answers \<^verbatim>\<open>InsertImage\<close> by the script.\<close>

definition host :: "result_code list \<Rightarrow> core" where
  "host script = \<lparr>insert_script = script, finished_code = DEVICE_OK, core_calls = []\<rparr>"

subsection \<open>The camera\<close>

text \<open>
  The host calls the functions of a device one at a time, from a controlling thread;
  a call runs to its return before the next begins. Beside it there is the capture
  thread of a sequence acquisition.

  The capture thread runs \<^verbatim>\<open>SendSequence(finite, count, stopOnOverflow)\<close>. It shares
  \<^verbatim>\<open>stopSequence_\<close> with the controlling thread and reads it only inside a
  \<^verbatim>\<open>lock_guard\<close> on \<^verbatim>\<open>sequenceMutex_\<close>, at two places: at the top of the loop and
  after a failed delivery. Those are the two points where the thread can be observed:
  \<open>LoopTest\<close> and \<open>ErrorCheck err\<close>. \<open>Finished\<close> is the thread after its function
  returned or threw.

  What the packaged task leaves in \<^verbatim>\<open>sequenceFuture_\<close> is an \<open>outcome\<close>: the function
  returned, or it threw \<^verbatim>\<open>DeviceError(code)\<close>.

  \<^verbatim>\<open>count\<close> and \<^verbatim>\<open>frame\<close> are of type \<^verbatim>\<open>long\<close>. They are integers here: the loop
  compares them and adds one to \<^verbatim>\<open>frame\<close>, starting from 0. The cumulative counter is
  passed as \<^verbatim>\<open>size_t\<close> and wraps at \<open>2 ^ 64\<close>.
\<close>

datatype outcome = Returned | Threw result_code

datatype future_state = uninitialized | waiting | ready outcome

datatype worker_pc = LoopTest | ErrorCheck result_code | Finished

record worker =
  w_finite :: bool
  w_count :: int
  w_stopOnOverflow :: bool
  w_frame :: int
  w_pc :: worker_pc

record camera =
  cumulativeSequenceCounter :: "64 word"
  stopSequence :: bool
  sequenceFuture :: future_state
  captureThread :: "worker option"
  coreCallback :: core

text \<open>
  The constructor \<^verbatim>\<open>TesterCamera::TesterCamera\<close>, attached to a host. The two fields of
  still images, \<^verbatim>\<open>snapCounter_\<close> and \<^verbatim>\<open>snapImage_\<close>, play no part in a sequence
  acquisition and are left out.
\<close>

definition TesterCamera :: "core \<Rightarrow> camera" where
  "TesterCamera c =
     \<lparr>cumulativeSequenceCounter = 0,
      stopSequence = True,
      sequenceFuture = uninitialized,
      captureThread = None,
      coreCallback = c\<rparr>"

text \<open>\<^verbatim>\<open>IsCapturing\<close> reads the flag, holding \<^verbatim>\<open>sequenceMutex_\<close>.\<close>

definition IsCapturing :: "camera \<Rightarrow> bool" where
  "IsCapturing s = (\<not> stopSequence s)"

text \<open>
  The block of \<^verbatim>\<open>StartSequenceAcquisitionImpl\<close> that holds \<^verbatim>\<open>sequenceMutex_\<close>: the test of
  \<^verbatim>\<open>stopSequence_\<close> and its reset are one critical section. The boolean tells whether
  the function goes on (\<open>True\<close>) or returns \<^verbatim>\<open>DEVICE_ERR\<close> from inside the block.
\<close>

definition start_locked :: "camera \<Rightarrow> bool \<times> camera" where
  "start_locked s =
     (if \<not> stopSequence s then (False, s)
      else (True, s\<lparr>stopSequence := False\<rparr>))"

text \<open>
  \<^verbatim>\<open>StartSequenceAcquisitionImpl\<close>: after the critical section the host is told, the
  task and its future are made and the thread is started at the top of its loop with
  \<^verbatim>\<open>frame = 0\<close>.
\<close>

definition StartSequenceAcquisitionImpl ::
    "bool \<Rightarrow> int \<Rightarrow> bool \<Rightarrow> camera \<Rightarrow> result_code \<times> camera" where
  "StartSequenceAcquisitionImpl fin count stopOnOverflow s =
     (case start_locked s of
        (False, s0) \<Rightarrow> (DEVICE_ERR, s0)
      | (True, s0) \<Rightarrow>
          (DEVICE_OK,
           s0\<lparr>coreCallback := PrepareForAcq (coreCallback s0),
              sequenceFuture := waiting,
              captureThread :=
                Some \<lparr>w_finite = fin, w_count = count, w_stopOnOverflow = stopOnOverflow,
                      w_frame = 0, w_pc = LoopTest\<rparr>\<rparr>))"

text \<open>The two public overloads of \<^verbatim>\<open>StartSequenceAcquisition\<close>.\<close>

definition StartSequenceAcquisition :: "int \<Rightarrow> bool \<Rightarrow> camera \<Rightarrow> result_code \<times> camera" where
  "StartSequenceAcquisition count stopOnOverflow s =
     StartSequenceAcquisitionImpl True count stopOnOverflow s"

definition StartSequenceAcquisition_continuous :: "camera \<Rightarrow> result_code \<times> camera" where
  "StartSequenceAcquisition_continuous s = StartSequenceAcquisitionImpl False 0 False s"

text \<open>
  The end of the capture thread: the task stores how \<^verbatim>\<open>SendSequence\<close> ended in the
  shared state of the future.
\<close>

definition finish_task :: "outcome \<Rightarrow> worker \<Rightarrow> camera \<Rightarrow> camera" where
  "finish_task out w s =
     s\<lparr>captureThread := Some (w\<lparr>w_pc := Finished\<rparr>), sequenceFuture := ready out\<rparr>"

text \<open>
  The body of the loop of \<^verbatim>\<open>SendSequence\<close> from the generation of the image to the
  end of the deliveries: the image takes the cumulative counter, which is incremented,
  and the frame number; it is inserted; on \<^verbatim>\<open>DEVICE_BUFFER_OVERFLOW\<close> with
  \<^verbatim>\<open>stopOnOverflow\<close> off the buffer is cleared and the same image inserted again with
  \<^verbatim>\<open>false\<close> as last argument. The result is the last \<^verbatim>\<open>err\<close>.
\<close>

definition deliver_frame :: "worker \<Rightarrow> camera \<Rightarrow> result_code \<times> camera" where
  "deliver_frame w s =
     (let img = GenerateLogImage True (cumulativeSequenceCounter s) (word_of_int (w_frame w));
          s1 = s\<lparr>cumulativeSequenceCounter := cumulativeSequenceCounter s + 1\<rparr>;
          (err, c1) = InsertImage img True (coreCallback s1)
      in if \<not> w_stopOnOverflow w \<and> err = DEVICE_BUFFER_OVERFLOW then
           (let c2 = ClearImageBuffer c1;
                (err', c3) = InsertImage img False c2
            in (err', s1\<lparr>coreCallback := c3\<rparr>))
         else (err, s1\<lparr>coreCallback := c1\<rparr>))"

text \<open>
  One move of the capture thread, from one observation point to the next.
  At \<open>LoopTest\<close>: the loop condition \<^verbatim>\<open>!finite || frame < count\<close>, then the stop flag,
  then the frame; a delivery that ends in \<^verbatim>\<open>DEVICE_OK\<close> goes on to \<^verbatim>\<open>++frame\<close> and the
  next test, any other code to the second look at the stop flag.
  At \<open>ErrorCheck err\<close>: not stopped, the thread throws \<^verbatim>\<open>DeviceError(err)\<close>; stopped, it
  breaks out of the loop and returns.
\<close>

definition SendSequence_step :: "camera \<Rightarrow> camera" where
  "SendSequence_step s =
     (case captureThread s of
        None \<Rightarrow> s
      | Some w \<Rightarrow>
          (case w_pc w of
             Finished \<Rightarrow> s
           | LoopTest \<Rightarrow>
               if \<not> (\<not> w_finite w \<or> w_frame w < w_count w) then finish_task Returned w s
               else if stopSequence s then finish_task Returned w s
               else
                 (let (err, s1) = deliver_frame w s
                  in if err \<noteq> DEVICE_OK
                     then s1\<lparr>captureThread := Some (w\<lparr>w_pc := ErrorCheck err\<rparr>)\<rparr>
                     else s1\<lparr>captureThread := Some (w\<lparr>w_frame := w_frame w + 1\<rparr>)\<rparr>)
           | ErrorCheck err \<Rightarrow>
               if \<not> stopSequence s then finish_task (Threw err) w s
               else finish_task Returned w s))"

text \<open>
  \<^verbatim>\<open>sequenceFuture_.get()\<close> blocks the caller until the task has ended, and yields how
  it ended; meanwhile the capture thread runs. A future nobody will ever make ready
  blocks for ever: the result is then \<open>None\<close>.
\<close>

partial_function (option) future_get :: "camera \<Rightarrow> (outcome \<times> camera) option" where
  "future_get s =
     (case sequenceFuture s of
        ready out \<Rightarrow> Some (out, s)
      | waiting \<Rightarrow> future_get (SendSequence_step s)
      | uninitialized \<Rightarrow> None)"

declare future_get.simps [code]

text \<open>
  The block of \<^verbatim>\<open>StopSequenceAcquisition\<close> that holds \<^verbatim>\<open>sequenceMutex_\<close>: the function
  returns \<^verbatim>\<open>DEVICE_OK\<close> from inside the block (\<open>False\<close>) when the flag is set, and sets
  it and goes on (\<open>True\<close>) otherwise.
\<close>

definition stop_locked :: "camera \<Rightarrow> bool \<times> camera" where
  "stop_locked s =
     (if stopSequence s then (False, s)
      else (True, s\<lparr>stopSequence := True\<rparr>))"

text \<open>
  \<^verbatim>\<open>StopSequenceAcquisition\<close>. After the critical section it waits for the future,
  unless that is uninitialized. The catch clause resets the future and returns the code
  of the \<^verbatim>\<open>DeviceError\<close>; otherwise the future is reset and the result is that of the
  host's \<^verbatim>\<open>AcqFinished\<close>.
\<close>

definition StopSequenceAcquisition :: "camera \<Rightarrow> (result_code \<times> camera) option" where
  "StopSequenceAcquisition s =
     (case stop_locked s of
        (False, s0) \<Rightarrow> Some (DEVICE_OK, s0)
      | (True, s1) \<Rightarrow>
          if sequenceFuture s1 \<noteq> uninitialized then
              (case future_get s1 of
                 None \<Rightarrow> None
               | Some (Threw e, s2) \<Rightarrow> Some (e, s2\<lparr>sequenceFuture := uninitialized\<rparr>)
               | Some (Returned, s2) \<Rightarrow>
                   (let s3 = s2\<lparr>sequenceFuture := uninitialized\<rparr>;
                        (r, c) = AcqFinished (coreCallback s3)
                    in Some (r, s3\<lparr>coreCallback := c\<rparr>)))
          else
            (let (r, c) = AcqFinished (coreCallback s1)
             in Some (r, s1\<lparr>coreCallback := c\<rparr>)))"

subsection \<open>Histories of a camera\<close>

text \<open>
  The host calls the device functions one at a time, and between two calls the capture
  thread may move any number of times. A history is the list of what happened, in order.
  A function that never returns (a wait on a future that nobody makes ready) ends the
  history with \<open>None\<close>.
\<close>

datatype event = StartCall bool int bool | StopCall | IsCapturingCall | CaptureThreadMove

fun apply_event :: "event \<Rightarrow> camera \<Rightarrow> camera option" where
  "apply_event (StartCall fin count stopOnOverflow) s =
     Some (snd (StartSequenceAcquisitionImpl fin count stopOnOverflow s))"
| "apply_event StopCall s = map_option snd (StopSequenceAcquisition s)"
| "apply_event IsCapturingCall s = Some s"
| "apply_event CaptureThreadMove s = Some (SendSequence_step s)"

fun run_events :: "event list \<Rightarrow> camera \<Rightarrow> camera option" where
  "run_events [] s = Some s"
| "run_events (e # es) s =
     (case apply_event e s of None \<Rightarrow> None | Some s' \<Rightarrow> run_events es s')"

text \<open>How often the host has been sent a given call.\<close>

definition notifications :: "core_call \<Rightarrow> camera \<Rightarrow> nat" where
  "notifications x s = count_list (core_calls (coreCallback s)) x"

text \<open>
  The images handed to the host, in order. The first delivery of an image leaves the
  last argument of \<^verbatim>\<open>InsertImage\<close> to its default; only the second delivery after an
  overflow passes \<^verbatim>\<open>false\<close>. So the first deliveries list every image made by the
  capture thread once.
\<close>

fun first_deliveries :: "core_call list \<Rightarrow> log_image list" where
  "first_deliveries [] = []"
| "first_deliveries (InsertImageCall img True # cs) = img # first_deliveries cs"
| "first_deliveries (c # cs) = first_deliveries cs"

definition frames :: "camera \<Rightarrow> log_image list" where
  "frames s = first_deliveries (core_calls (coreCallback s))"

text \<open>
  The future and the capture thread belong together: a future that is waited for has a
  thread that has not ended.
\<close>

definition thread_alive :: "camera \<Rightarrow> bool" where
  "thread_alive s =
     (case sequenceFuture s of
        waiting \<Rightarrow>
          (case captureThread s of None \<Rightarrow> False | Some w \<Rightarrow> w_pc w \<noteq> Finished)
      | _ \<Rightarrow> True)"

text \<open>Runs told to the host as finished, and one more while a run is on, never exceed
  the runs started.\<close>

definition balanced :: "camera \<Rightarrow> bool" where
  "balanced s =
     (notifications AcqFinishedCall s + (if stopSequence s then 0 else 1)
        \<le> notifications PrepareForAcqCall s)"

text \<open>
  The images of \<open>k\<close> turns of the loop that begin with the cumulative counter at \<open>c\<close>
  and the frame number at \<open>f\<close>, and the camera after a run whose \<open>k\<close> images the host
  has all accepted: the images delivered once each, the counter \<open>k\<close> further, the thread
  ended and the future ready.
\<close>

definition run_images :: "64 word \<Rightarrow> int \<Rightarrow> nat \<Rightarrow> log_image list" where
  "run_images c f k =
     map (\<lambda>i. GenerateLogImage True (c + of_nat i) (word_of_int (f + int i))) [0..<k]"

definition after_run :: "nat \<Rightarrow> worker \<Rightarrow> camera \<Rightarrow> camera" where
  "after_run k w s =
     s\<lparr>cumulativeSequenceCounter := cumulativeSequenceCounter s + of_nat k,
       coreCallback := (coreCallback s)
         \<lparr>core_calls := core_calls (coreCallback s) @
            map (\<lambda>img. InsertImageCall img True)
              (run_images (cumulativeSequenceCounter s) (w_frame w) k)\<rparr>,
       captureThread := Some (w\<lparr>w_frame := w_frame w + int k, w_pc := Finished\<rparr>),
       sequenceFuture := ready Returned\<rparr>"


subsection \<open>The XY stage\<close>

text \<open>
  \<^verbatim>\<open>TesterXYStage::SetPositionSteps\<close> takes the logger's guard, marks the device busy
  and calls \<^verbatim>\<open>Set\<close> on its two settings. The guard, \<^verbatim>\<open>MarkBusy\<close> and the settings
  are declared outside SequenceTester.cpp: \<^verbatim>\<open>MarkBusy\<close> and the two \<^verbatim>\<open>Set\<close> functions
  are parameters, acting on the state \<open>'d\<close> of the settings and their logger, and the
  stage keeps the record of what it asked for, oldest first. The guard is released when
  the function returns.
\<close>

datatype stage_call =
    GuardAcquire
  | MarkBusyCall
  | XSetCall int
  | YSetCall int
  | GuardRelease

record 'd xy_stage =
  stage_calls :: "stage_call list"
  stage_settings :: 'd

definition stage_call :: "stage_call \<Rightarrow> 'd xy_stage \<Rightarrow> 'd xy_stage" where
  "stage_call c s = s\<lparr>stage_calls := stage_calls s @ [c]\<rparr>"

definition SetPositionSteps ::
    "('d \<Rightarrow> 'd) \<Rightarrow> (int \<Rightarrow> 'd \<Rightarrow> result_code \<times> 'd) \<Rightarrow>
     (int \<Rightarrow> 'd \<Rightarrow> result_code \<times> 'd) \<Rightarrow>
     int \<Rightarrow> int \<Rightarrow> 'd xy_stage \<Rightarrow> result_code \<times> 'd xy_stage" where
  "SetPositionSteps markBusy xSet ySet x y s =
     (let g = stage_call GuardAcquire s;
          s0 = stage_call MarkBusyCall (g\<lparr>stage_settings := markBusy (stage_settings g)\<rparr>);
          (err1, d1) = xSet x (stage_settings s0);
          s1 = stage_call (XSetCall x) (s0\<lparr>stage_settings := d1\<rparr>);
          (err2, d2) = ySet y (stage_settings s1);
          s2 = stage_call (YSetCall y) (s1\<lparr>stage_settings := d2\<rparr>);
          s3 = stage_call GuardRelease s2
      in if err1 \<noteq> DEVICE_OK then (err1, s3)
         else if err2 \<noteq> DEVICE_OK then (err2, s3)
         else (DEVICE_OK, s3))"

section \<open>The setting logger and the settings\<close>

text \<open>
  SequenceTester.cpp uses the logger (\<^verbatim>\<open>GetLogger()\<close>, \<^verbatim>\<open>PackAndReset\<close>) and the
  settings (\<^verbatim>\<open>IntegerSetting\<close>, \<^verbatim>\<open>FloatSetting\<close>, their \<^verbatim>\<open>Set\<close> and \<^verbatim>\<open>Get\<close>), which
  are written in other files of the adapter. The definitions of this section follow the
  specification's description of them.
\<close>

text \<open>
  Modelled from the spec: LogEntry, which is not in SequenceTester.cpp. The sequence
  number is given as a 64-bit unsigned integer and as strictly increasing; it is a
  natural number here, that is, a counter that stays below \<open>2 ^ 64\<close>. The thread
  identifier is opaque: a number.
\<close>

datatype entry_kind = Read | Write

record LogEntry =
  globalSequenceNumber :: nat
  threadId :: nat
  settingName :: string
  kind :: entry_kind
  valueAsText :: string

text \<open>
  Modelled from the spec: the SettingLogger, which is not in SequenceTester.cpp. It owns
  the ordered sequence of entries (insertion order) and the monotonic counter.
\<close>

record SettingLogger =
  log_counter :: nat
  log_entries :: "LogEntry list"

text \<open>Modelled from the spec: a SettingLogger that has recorded nothing yet.\<close>

definition new_logger :: SettingLogger where
  "new_logger = \<lparr>log_counter = 0, log_entries = []\<rparr>"

text \<open>
  Modelled from the spec: recordWrite and recordRead of the SettingLogger, which are not
  in SequenceTester.cpp. Each appends an entry with a freshly assigned sequence number;
  the counter is incremented in the same critical section.
\<close>

definition record_entry ::
    "entry_kind \<Rightarrow> nat \<Rightarrow> string \<Rightarrow> string \<Rightarrow> SettingLogger \<Rightarrow> SettingLogger" where
  "record_entry k thread name txt lg =
     lg\<lparr>log_entries := log_entries lg @
           [\<lparr>globalSequenceNumber = log_counter lg, threadId = thread,
             settingName = name, kind = k, valueAsText = txt\<rparr>],
        log_counter := log_counter lg + 1\<rparr>"

definition recordWrite :: "nat \<Rightarrow> string \<Rightarrow> string \<Rightarrow> SettingLogger \<Rightarrow> SettingLogger" where
  "recordWrite = record_entry Write"

definition recordRead :: "nat \<Rightarrow> string \<Rightarrow> string \<Rightarrow> SettingLogger \<Rightarrow> SettingLogger" where
  "recordRead = record_entry Read"

text \<open>
  Modelled from the spec: the error kinds of its section on error handling, which the
  operations outside SequenceTester.cpp return.
\<close>

datatype error_kind =
    OutOfRange
  | InvalidState
  | AlreadyRunning
  | NotRunning
  | BufferOverflow
  | InsufficientCapacity
  | Unsupported

text \<open>
  Modelled from the spec: Setting<T>, which is not in SequenceTester.cpp, with its name,
  value, optional minimum and maximum, and the two flags preInitOnly and initialized.
  The value type is any type with an order (integer or real).
\<close>

record 'a setting =
  setting_name :: string
  setting_value :: 'a
  setting_min_max :: "('a \<times> 'a) option"
  preInitOnly :: bool
  initialized :: bool


text \<open>
  Modelled from the spec: the validation of the bounds in Setting<T>::set, which is not
  in SequenceTester.cpp: \<open>value < min || value > max\<close>, on a setting that has bounds.
\<close>

definition out_of_bounds :: "'a::ord \<Rightarrow> 'a setting \<Rightarrow> bool" where
  "out_of_bounds v st =
     (case setting_min_max st of
        None \<Rightarrow> False
      | Some (lo, hi) \<Rightarrow> v < lo \<or> v > hi)"

text \<open>
  Modelled from the spec: Setting<T>::set, which is not in SequenceTester.cpp. It
  validates preInitOnly (InvalidState if the device has left initialization and the
  setting restricts later writes), validates the bounds (OutOfRange), then records a
  Write event and stores the value, all under one acquisition of the guard. \<open>render\<close>
  gives the text of a value; \<open>thread\<close> is the calling thread.
\<close>

definition setting_set ::
    "('a \<Rightarrow> string) \<Rightarrow> nat \<Rightarrow> 'a::ord \<Rightarrow> SettingLogger \<times> 'a setting \<Rightarrow>
     (error_kind + unit) \<times> SettingLogger \<times> 'a setting" where
  "setting_set render thread v p =
     (case p of (lg, st) \<Rightarrow>
        if preInitOnly st \<and> initialized st then (Inl InvalidState, lg, st)
        else if out_of_bounds v st then (Inl OutOfRange, lg, st)
        else (Inr (),
              recordWrite thread (setting_name st) (render v) lg,
              st\<lparr>setting_value := v\<rparr>))"

text \<open>
  Modelled from the spec: Setting<T>::get, which is not in SequenceTester.cpp. It records
  a Read event and returns the current value.
\<close>

definition setting_get ::
    "('a \<Rightarrow> string) \<Rightarrow> nat \<Rightarrow> SettingLogger \<times> 'a setting \<Rightarrow> 'a \<times> SettingLogger \<times> 'a setting" where
  "setting_get render thread p =
     (case p of (lg, st) \<Rightarrow>
        (setting_value st,
         recordRead thread (setting_name st) (render (setting_value st)) lg,
         st))"

text \<open>
  Calls of Get and Set by any threads on the settings of one logger. The guard makes
  every call one critical section, so what the threads do together is a list of calls,
  in the order in which they held the guard; each call names its thread and the setting
  it is made on. A name that stands for no setting changes nothing.
\<close>

datatype 'a setting_call = GetCall nat string | SetCall nat string 'a

type_synonym 'a settings = "string \<Rightarrow> 'a setting option"

fun apply_call ::
    "('a \<Rightarrow> string) \<Rightarrow> 'a::ord setting_call \<Rightarrow> SettingLogger \<times> 'a settings \<Rightarrow>
     SettingLogger \<times> 'a settings" where
  "apply_call render (GetCall thread name) (lg, sts) =
     (case sts name of
        None \<Rightarrow> (lg, sts)
      | Some st \<Rightarrow>
          (case setting_get render thread (lg, st) of
             (v, lg', st') \<Rightarrow> (lg', sts(name \<mapsto> st'))))"
| "apply_call render (SetCall thread name v) (lg, sts) =
     (case sts name of
        None \<Rightarrow> (lg, sts)
      | Some st \<Rightarrow>
          (case setting_set render thread v (lg, st) of
             (r, lg', st') \<Rightarrow> (lg', sts(name \<mapsto> st'))))"

fun run_calls ::
    "('a \<Rightarrow> string) \<Rightarrow> 'a::ord setting_call list \<Rightarrow> SettingLogger \<times> 'a settings \<Rightarrow>
     SettingLogger \<times> 'a settings" where
  "run_calls render [] p = p"
| "run_calls render (c # cs) p = run_calls render cs (apply_call render c p)"

text \<open>Numbers that go up by one from each to the next.\<close>

fun consecutive :: "nat list \<Rightarrow> bool" where
  "consecutive (x # y # ys) = (y = Suc x \<and> consecutive (y # ys))"
| "consecutive _ = True"

text \<open>The sequence numbers of the entries of a log, in the order of the log.\<close>

definition sequence_numbers :: "SettingLogger \<Rightarrow> nat list" where
  "sequence_numbers lg = map globalSequenceNumber (log_entries lg)"

text \<open>
  The numbers of the entries, followed by the number the next entry will get, go up by
  one: this is what a logger looks like after any use, also after its log was cleared.
\<close>

definition logger_ok :: "SettingLogger \<Rightarrow> bool" where
  "logger_ok lg = consecutive (sequence_numbers lg @ [log_counter lg])"

text \<open>
  Modelled from the spec: the synthetic frame payload of the section on external
  interfaces, which is produced outside SequenceTester.cpp: the device name, the
  still/sequence flag, the two counts and the log entries since the last reset.
\<close>

record payload =
  p_deviceName :: string
  p_isSequenceImage :: bool
  p_cumulativeCount :: nat
  p_localCount :: nat
  p_log :: "LogEntry list"

text \<open>
  Modelled from the spec: the write of packAndReset into the caller's buffer. The
  memory at the buffer is a function from offsets to bytes, so that a write at any
  offset shows; the bytes \<open>bs\<close> go to the offsets below \<open>length bs\<close>.
\<close>

definition write_bytes :: "8 word list \<Rightarrow> (nat \<Rightarrow> 8 word) \<Rightarrow> nat \<Rightarrow> 8 word" where
  "write_bytes bs mem = (\<lambda>i. if i < length bs then bs ! i else mem i)"

text \<open>
  Modelled from the spec: packAndReset of the SettingLogger, which is not in
  SequenceTester.cpp. The byte layout of the payload is left open by the specification:
  \<open>encode\<close> is a parameter. packAndReset serializes the payload into the buffer, cut at
  bufferSize; it reports insufficient-capacity when bufferSize is smaller than the
  encoding, and the number of bytes written otherwise; and it clears the log.
\<close>

definition packAndReset ::
    "(payload \<Rightarrow> 8 word list) \<Rightarrow> (nat \<Rightarrow> 8 word) \<Rightarrow> nat \<Rightarrow> string \<Rightarrow> bool \<Rightarrow> nat \<Rightarrow> nat \<Rightarrow>
     SettingLogger \<Rightarrow> (error_kind + nat) \<times> (nat \<Rightarrow> 8 word) \<times> SettingLogger" where
  "packAndReset encode buffer bufferSize deviceName isSequenceImage cumulativeCount
       localCount lg =
     (let bytes = encode \<lparr>p_deviceName = deviceName, p_isSequenceImage = isSequenceImage,
                          p_cumulativeCount = cumulativeCount, p_localCount = localCount,
                          p_log = log_entries lg\<rparr>;
          buffer' = write_bytes (take bufferSize bytes) buffer;
          lg' = lg\<lparr>log_entries := []\<rparr>
      in if bufferSize < length bytes then (Inl InsufficientCapacity, buffer', lg')
         else (Inr (length bytes), buffer', lg'))"

section \<open>Properties\<close>

subsection \<open>Start and stop, with their critical sections unfolded\<close>

lemma Start_eq:
  "StartSequenceAcquisitionImpl fin count stopOnOverflow s =
     (if \<not> stopSequence s then (DEVICE_ERR, s)
      else
        (DEVICE_OK,
         s\<lparr>stopSequence := False,
           coreCallback := PrepareForAcq (coreCallback s),
           sequenceFuture := waiting,
           captureThread :=
             Some \<lparr>w_finite = fin, w_count = count, w_stopOnOverflow = stopOnOverflow,
                   w_frame = 0, w_pc = LoopTest\<rparr>\<rparr>))"
  by (simp add: StartSequenceAcquisitionImpl_def start_locked_def)

lemma Stop_eq:
  "StopSequenceAcquisition s =
     (if stopSequence s then Some (DEVICE_OK, s)
      else
        (let s1 = s\<lparr>stopSequence := True\<rparr>
         in if sequenceFuture s1 \<noteq> uninitialized then
              (case future_get s1 of
                 None \<Rightarrow> None
               | Some (Threw e, s2) \<Rightarrow> Some (e, s2\<lparr>sequenceFuture := uninitialized\<rparr>)
               | Some (Returned, s2) \<Rightarrow>
                   (let s3 = s2\<lparr>sequenceFuture := uninitialized\<rparr>;
                        (r, c) = AcqFinished (coreCallback s3)
                    in Some (r, s3\<lparr>coreCallback := c\<rparr>)))
            else
              (let (r, c) = AcqFinished (coreCallback s1)
               in Some (r, s1\<lparr>coreCallback := c\<rparr>))))"
  by (simp add: StopSequenceAcquisition_def stop_locked_def Let_def)

lemma InsertImage_calls:
  "core_calls (snd (InsertImage img flag c)) = core_calls c @ [InsertImageCall img flag]"
  by (simp add: InsertImage_def split: list.split)

lemma InsertImage_finished_code:
  "finished_code (snd (InsertImage img flag c)) = finished_code c"
  by (simp add: InsertImage_def split: list.split)

lemma deliver_frame_stopSequence:
  "stopSequence (snd (deliver_frame w s)) = stopSequence s"
  by (simp add: deliver_frame_def Let_def split: prod.split)

lemma deliver_frame_future:
  "sequenceFuture (snd (deliver_frame w s)) = sequenceFuture s"
  by (simp add: deliver_frame_def Let_def split: prod.split)

lemma deliver_frame_calls:
  "\<exists>img extra. core_calls (coreCallback (snd (deliver_frame w s))) =
      core_calls (coreCallback s) @ InsertImageCall img True # extra \<and>
      set extra \<subseteq> {ClearImageBufferCall, InsertImageCall img False}"
  apply (simp add: deliver_frame_def Let_def split: prod.split)
  apply (auto simp: InsertImage_def ClearImageBuffer_def split: list.splits)
  done

lemma deliver_frame_notifications:
  assumes "x = AcqFinishedCall \<or> x = PrepareForAcqCall"
  shows "notifications x (snd (deliver_frame w s)) = notifications x s"
proof -
  obtain img extra where
    c: "core_calls (coreCallback (snd (deliver_frame w s))) =
          core_calls (coreCallback s) @ InsertImageCall img True # extra"
    and e: "set extra \<subseteq> {ClearImageBufferCall, InsertImageCall img False}"
    using deliver_frame_calls by blast
  from e assms have "count_list extra x = 0"
    by (auto simp: count_list_0_iff)
  with c assms show ?thesis
    by (auto simp: notifications_def)
qed

lemma step_stopSequence: "stopSequence (SendSequence_step s) = stopSequence s"
  by (simp add: SendSequence_step_def finish_task_def Let_def case_prod_beta
      deliver_frame_stopSequence split: option.split worker_pc.split)

lemma step_notifications:
  assumes "x = AcqFinishedCall \<or> x = PrepareForAcqCall"
  shows "notifications x (SendSequence_step s) = notifications x s"
proof -
  have "\<And>w s1. notifications x (s1\<lparr>captureThread := w\<rparr>) = notifications x s1"
    "\<And>out w. notifications x (finish_task out w s) = notifications x s"
    by (simp_all add: notifications_def finish_task_def)
  then show ?thesis
    by (simp add: SendSequence_step_def Let_def case_prod_beta
        deliver_frame_notifications [OF assms] split: option.split worker_pc.split)
qed

text \<open>What holds before every move of the capture thread holds when the wait ends.\<close>

lemma future_get_invariant:
  assumes "future_get s = Some (out, s')"
    and "P s"
    and "\<And>t. P t \<Longrightarrow> P (SendSequence_step t)"
  shows "P s' \<and> sequenceFuture s' = ready out"
proof -
  have "P x \<longrightarrow> P (snd y) \<and> sequenceFuture (snd y) = ready (fst y)"
    if "future_get x = Some y" for x y
  proof (rule future_get.raw_induct
      [where P = "\<lambda>x y. P x \<longrightarrow> P (snd y) \<and> sequenceFuture (snd y) = ready (fst y)"])
    show "future_get x = Some y" by (rule that)
  next
    fix get t y
    assume ih: "\<And>x y. get x = Some y \<Longrightarrow>
                  P x \<longrightarrow> P (snd y) \<and> sequenceFuture (snd y) = ready (fst y)"
      and eq: "(case sequenceFuture t of
                  uninitialized \<Rightarrow> None
                | waiting \<Rightarrow> get (SendSequence_step t)
                | ready out \<Rightarrow> Some (out, t)) = Some y"
    show "P t \<longrightarrow> P (snd y) \<and> sequenceFuture (snd y) = ready (fst y)"
    proof (cases "sequenceFuture t")
      case uninitialized
      with eq show ?thesis by simp
    next
      case waiting
      with eq have "get (SendSequence_step t) = Some y" by simp
      from ih [OF this] assms(3) show ?thesis by blast
    next
      case (ready r)
      with eq show ?thesis by auto
    qed
  qed
  from this [OF assms(1)] assms(2) show ?thesis by simp
qed

lemma future_get_stopSequence:
  "future_get s = Some (out, s') \<Longrightarrow> stopSequence s' = stopSequence s"
  using future_get_invariant [where P = "\<lambda>t. stopSequence t = stopSequence s"]
  by (simp add: step_stopSequence)

lemma future_get_notifications:
  "future_get s = Some (out, s') \<Longrightarrow> x = AcqFinishedCall \<or> x = PrepareForAcqCall \<Longrightarrow>
     notifications x s' = notifications x s"
  using future_get_invariant [where P = "\<lambda>t. notifications x t = notifications x s"]
  by (simp add: step_notifications)

subsection \<open>Stopping\<close>

lemma Stop_stopped: "stopSequence s \<Longrightarrow> StopSequenceAcquisition s = Some (DEVICE_OK, s)"
  by (simp add: Stop_eq)

lemma Stop_stops:
  assumes "StopSequenceAcquisition s = Some (r, s')"
  shows "stopSequence s'"
proof (cases "stopSequence s")
  case True
  with assms show ?thesis by (simp add: Stop_eq)
next
  case False
  show ?thesis
  proof (cases "sequenceFuture s = uninitialized")
    case True
    with False assms show ?thesis
      by (auto simp: Stop_eq Let_def AcqFinished_def)
  next
    case nu: False
    with False assms obtain out s2 where
      g: "future_get (s\<lparr>stopSequence := True\<rparr>) = Some (out, s2)"
      by (auto simp: Stop_eq Let_def split: option.splits)
    from future_get_stopSequence [OF g] have "stopSequence s2" by simp
    with False nu assms g show ?thesis
      by (auto simp: Stop_eq Let_def AcqFinished_def
          split: outcome.splits)
  qed
qed

lemma Stop_future:
  assumes "StopSequenceAcquisition s = Some (r, s')" and "\<not> stopSequence s"
  shows "sequenceFuture s' = uninitialized"
proof (cases "sequenceFuture s = uninitialized")
  case True
  with assms show ?thesis
    by (auto simp: Stop_eq Let_def AcqFinished_def)
next
  case False
  with assms show ?thesis
    by (auto simp: Stop_eq Let_def AcqFinished_def
        split: option.splits outcome.splits)
qed

text \<open>A stop tells the host at most once that the acquisition finished, and starts nothing.\<close>

lemma Stop_notifications:
  assumes "StopSequenceAcquisition s = Some (r, s')"
  shows "notifications AcqFinishedCall s' \<le> Suc (notifications AcqFinishedCall s)"
    and "notifications PrepareForAcqCall s' = notifications PrepareForAcqCall s"
    and "stopSequence s \<Longrightarrow> notifications AcqFinishedCall s' = notifications AcqFinishedCall s"
proof -
  have *: "notifications AcqFinishedCall s' \<le> Suc (notifications AcqFinishedCall s) \<and>
        notifications PrepareForAcqCall s' = notifications PrepareForAcqCall s \<and>
        (stopSequence s \<longrightarrow> notifications AcqFinishedCall s' = notifications AcqFinishedCall s)"
  proof (cases "stopSequence s")
    case True
    with assms show ?thesis by (simp add: Stop_eq)
  next
    case False
    show ?thesis
    proof (cases "sequenceFuture s = uninitialized")
      case True
      with False assms show ?thesis
        by (auto simp: Stop_eq Let_def AcqFinished_def notifications_def)
    next
      case nu: False
      with False assms obtain out s2 where
        g: "future_get (s\<lparr>stopSequence := True\<rparr>) = Some (out, s2)"
        by (auto simp: Stop_eq Let_def split: option.splits)
      have n: "notifications AcqFinishedCall s2 = notifications AcqFinishedCall s"
        "notifications PrepareForAcqCall s2 = notifications PrepareForAcqCall s"
        using future_get_notifications [OF g] by (simp_all add: notifications_def)
      from False nu assms g have
        "core_calls (coreCallback s') = core_calls (coreCallback s2) \<or>
         core_calls (coreCallback s') = core_calls (coreCallback s2) @ [AcqFinishedCall]"
        by (auto simp: Stop_eq Let_def AcqFinished_def
            split: outcome.splits)
      with n False show ?thesis
        by (auto simp: notifications_def)
    qed
  qed
  from * show "notifications AcqFinishedCall s' \<le> Suc (notifications AcqFinishedCall s)"
    and "notifications PrepareForAcqCall s' = notifications PrepareForAcqCall s"
    and "stopSequence s \<Longrightarrow> notifications AcqFinishedCall s' = notifications AcqFinishedCall s"
    by simp_all
qed

subsection \<open>Waiting for the capture thread\<close>

lemma future_get_ready: "sequenceFuture s = ready out \<Longrightarrow> future_get s = Some (out, s)"
  by (subst future_get.simps) simp

lemma future_get_waiting:
  "sequenceFuture s = waiting \<Longrightarrow> future_get s = future_get (SendSequence_step s)"
  by (subst future_get.simps) simp

text \<open>Once the stop flag is set, the next move of a living capture thread is its last,
  and it ends by returning.\<close>

lemma step_stopped:
  assumes "stopSequence s" and "captureThread s = Some w" and "w_pc w \<noteq> Finished"
  shows "SendSequence_step s = finish_task Returned w s"
  using assms by (cases "w_pc w") (simp_all add: SendSequence_step_def)

lemma future_get_stopped:
  assumes "stopSequence s" and "sequenceFuture s = waiting"
    and "captureThread s = Some w" and "w_pc w \<noteq> Finished"
  shows "future_get s = Some (Returned, finish_task Returned w s)"
proof -
  have "future_get s = future_get (finish_task Returned w s)"
    using assms by (simp add: future_get_waiting step_stopped)
  also have "\<dots> = Some (Returned, finish_task Returned w s)"
    by (rule future_get_ready) (simp add: finish_task_def)
  finally show ?thesis .
qed

text \<open>After a run that ended by a return, the stop tells the host.\<close>

lemma Stop_after_return:
  assumes "\<not> stopSequence s" and "sequenceFuture s = ready Returned"
  shows "StopSequenceAcquisition s =
           Some (finished_code (coreCallback s),
             s\<lparr>stopSequence := True, sequenceFuture := uninitialized,
               coreCallback := (coreCallback s)
                 \<lparr>core_calls := core_calls (coreCallback s) @ [AcqFinishedCall]\<rparr>\<rparr>)"
proof -
  have "future_get (s\<lparr>stopSequence := True\<rparr>) = Some (Returned, s\<lparr>stopSequence := True\<rparr>)"
    by (rule future_get_ready) (simp add: assms)
  with assms show ?thesis
    by (simp add: Stop_eq Let_def AcqFinished_def)
qed

lemma Stop_returns:
  assumes "thread_alive s"
  shows "\<exists>r s'. StopSequenceAcquisition s = Some (r, s')"
proof (cases "stopSequence s")
  case True
  then show ?thesis by (simp add: Stop_eq)
next
  case False
  show ?thesis
  proof (cases "sequenceFuture s")
    case uninitialized
    with False show ?thesis
      by (simp add: Stop_eq Let_def case_prod_beta)
  next
    case waiting
    with assms obtain w where w: "captureThread s = Some w" "w_pc w \<noteq> Finished"
      by (auto simp: thread_alive_def split: option.splits)
    have "future_get (s\<lparr>stopSequence := True\<rparr>) =
            Some (Returned, finish_task Returned w (s\<lparr>stopSequence := True\<rparr>))"
      by (rule future_get_stopped) (use waiting w in simp_all)
    with False waiting show ?thesis
      by (simp add: Stop_eq Let_def case_prod_beta)
  next
    case (ready out)
    then have "future_get (s\<lparr>stopSequence := True\<rparr>) = Some (out, s\<lparr>stopSequence := True\<rparr>)"
      by (simp add: future_get_ready)
    with False ready show ?thesis
      by (cases out) (simp_all add: Stop_eq Let_def case_prod_beta)
  qed
qed

subsection \<open>What every history keeps\<close>

lemma step_thread_alive: "thread_alive s \<Longrightarrow> thread_alive (SendSequence_step s)"
  by (auto simp: thread_alive_def SendSequence_step_def finish_task_def Let_def
      case_prod_beta deliver_frame_future
      split: option.splits worker_pc.splits future_state.splits)

lemma Start_thread_alive:
  "thread_alive s \<Longrightarrow> thread_alive (snd (StartSequenceAcquisitionImpl fin count soo s))"
  by (cases "stopSequence s") (simp_all add: thread_alive_def Start_eq)

lemma Stop_thread_alive:
  assumes "StopSequenceAcquisition s = Some (r, s')" and "thread_alive s"
  shows "thread_alive s'"
proof (cases "stopSequence s")
  case True
  with assms show ?thesis by (simp add: Stop_eq)
next
  case False
  from Stop_future [OF assms(1) False] show ?thesis
    by (simp add: thread_alive_def)
qed

lemma step_balanced: "balanced s \<Longrightarrow> balanced (SendSequence_step s)"
  by (simp add: balanced_def step_notifications step_stopSequence)

lemma Start_balanced:
  "balanced s \<Longrightarrow> balanced (snd (StartSequenceAcquisitionImpl fin count soo s))"
  by (cases "stopSequence s")
     (simp_all add: balanced_def Start_eq notifications_def
        PrepareForAcq_def)

lemma Stop_balanced:
  assumes "StopSequenceAcquisition s = Some (r, s')" and "balanced s"
  shows "balanced s'"
proof (cases "stopSequence s")
  case True
  with assms show ?thesis by (simp add: Stop_eq)
next
  case False
  with Stop_notifications(1,2) [OF assms(1)] Stop_stops [OF assms(1)] assms(2)
  show ?thesis by (simp add: balanced_def)
qed

lemma new_camera_ok:
  "thread_alive (TesterCamera c)" "core_calls c = [] \<Longrightarrow> balanced (TesterCamera c)"
  by (simp_all add: thread_alive_def balanced_def TesterCamera_def notifications_def)

lemma run_events_keeps:
  assumes "thread_alive s" and "balanced s"
  shows "\<exists>s'. run_events es s = Some s' \<and> thread_alive s' \<and> balanced s'"
  using assms
proof (induction es arbitrary: s)
  case Nil
  then show ?case by simp
next
  case (Cons e es)
  have "\<exists>t. apply_event e s = Some t \<and> thread_alive t \<and> balanced t"
  proof (cases e)
    case (StartCall fin count soo)
    with Cons.prems show ?thesis
      by (simp add: Start_thread_alive Start_balanced)
  next
    case StopCall
    from Stop_returns [OF Cons.prems(1)] obtain r t where
      t: "StopSequenceAcquisition s = Some (r, t)" by blast
    with StopCall Cons.prems show ?thesis
      by (simp add: Stop_thread_alive [OF t] Stop_balanced [OF t])
  next
    case IsCapturingCall
    with Cons.prems show ?thesis by simp
  next
    case CaptureThreadMove
    with Cons.prems show ?thesis
      by (simp add: step_thread_alive step_balanced)
  qed
  then obtain t where t: "apply_event e s = Some t" "thread_alive t" "balanced t"
    by blast
  from Cons.IH [OF t(2,3)] t(1) show ?case by simp
qed

lemma steps_stopSequence: "stopSequence ((SendSequence_step ^^ n) s) = stopSequence s"
  by (induction n) (simp_all add: step_stopSequence)

subsection \<open>A run that the host accepts\<close>

lemma run_images_Suc:
  "run_images c f (Suc k) = GenerateLogImage True c (word_of_int f) # run_images (c + 1) (f + 1) k"
  by (simp add: run_images_def map_upt_Suc add.assoc del: upt_Suc)

lemma step_delivers:
  assumes "captureThread s = Some w" and "w_pc w = LoopTest" and "\<not> stopSequence s"
    and "\<not> w_finite w \<or> w_frame w < w_count w"
    and "insert_script (coreCallback s) = []"
  shows "SendSequence_step s =
     s\<lparr>cumulativeSequenceCounter := cumulativeSequenceCounter s + 1,
       coreCallback := (coreCallback s)
         \<lparr>core_calls := core_calls (coreCallback s) @
            [InsertImageCall
               (GenerateLogImage True (cumulativeSequenceCounter s) (word_of_int (w_frame w)))
               True]\<rparr>,
       captureThread := Some (w\<lparr>w_frame := w_frame w + 1\<rparr>)\<rparr>"
  using assms
  by (auto simp: SendSequence_step_def deliver_frame_def InsertImage_def Let_def)

lemma finite_run:
  assumes "captureThread s = Some w" and "w_pc w = LoopTest" and "w_finite w"
    and "\<not> stopSequence s" and "sequenceFuture s = waiting"
    and "insert_script (coreCallback s) = []"
    and "nat (w_count w - w_frame w) = k"
  shows "future_get s = Some (Returned, after_run k w s)"
  using assms
proof (induction k arbitrary: s w)
  case 0
  then have "SendSequence_step s = finish_task Returned w s"
    by (simp add: SendSequence_step_def)
  moreover have "finish_task Returned w s = after_run 0 w s"
    by (simp add: finish_task_def after_run_def run_images_def)
  moreover have "future_get (after_run 0 w s) = Some (Returned, after_run 0 w s)"
    by (rule future_get_ready) (simp add: after_run_def)
  ultimately show ?case
    using "0.prems"(5) by (simp add: future_get_waiting)
next
  case (Suc k)
  let ?w = "w\<lparr>w_frame := w_frame w + 1\<rparr>"
  let ?s = "SendSequence_step s"
  from Suc.prems have lt: "w_frame w < w_count w" by linarith
  have st: "?s =
     s\<lparr>cumulativeSequenceCounter := cumulativeSequenceCounter s + 1,
       coreCallback := (coreCallback s)
         \<lparr>core_calls := core_calls (coreCallback s) @
            [InsertImageCall
               (GenerateLogImage True (cumulativeSequenceCounter s) (word_of_int (w_frame w)))
               True]\<rparr>,
       captureThread := Some ?w\<rparr>"
    by (rule step_delivers) (use Suc.prems lt in simp_all)
  have "future_get ?s = Some (Returned, after_run k ?w ?s)"
  proof (rule Suc.IH)
    show "captureThread ?s = Some ?w" by (simp add: st)
    show "w_pc ?w = LoopTest" using Suc.prems by simp
    show "w_finite ?w" using Suc.prems by simp
    show "\<not> stopSequence ?s" using Suc.prems by (simp add: st)
    show "sequenceFuture ?s = waiting" using Suc.prems by (simp add: st)
    show "insert_script (coreCallback ?s) = []" using Suc.prems by (simp add: st)
    show "nat (w_count ?w - w_frame ?w) = k" using Suc.prems by simp
  qed
  moreover have "after_run k ?w ?s = after_run (Suc k) w s"
    by (simp add: st after_run_def run_images_Suc add.assoc)
  ultimately show ?case
    using Suc.prems(5) by (simp add: future_get_waiting)
qed

lemma first_deliveries_append:
  "first_deliveries (xs @ ys) = first_deliveries xs @ first_deliveries ys"
  by (induction xs rule: first_deliveries.induct) simp_all

lemma first_deliveries_firsts:
  "first_deliveries (map (\<lambda>img. InsertImageCall img True) imgs) = imgs"
  by (induction imgs) simp_all

lemma frames_after_run:
  "frames (after_run k w s) = frames s @ run_images (cumulativeSequenceCounter s) (w_frame w) k"
  by (simp add: frames_def after_run_def first_deliveries_append first_deliveries_firsts)








subsection \<open>The numbering of the images\<close>









subsection \<open>Starting twice\<close>

lemma Start_running:
  "\<not> stopSequence s \<Longrightarrow> StartSequenceAcquisitionImpl fin count soo s = (DEVICE_ERR, s)"
  by (simp add: Start_eq)

lemma Start_stopped:
  "stopSequence s \<Longrightarrow>
     fst (StartSequenceAcquisitionImpl fin count soo s) = DEVICE_OK \<and>
     \<not> stopSequence (snd (StartSequenceAcquisitionImpl fin count soo s))"
  by (simp add: Start_eq)

text \<open>
  C3. While a sequence acquisition is on (\<^verbatim>\<open>stopSequence_\<close> is false), a further start,
  through either overload, returns the error code \<open>DEVICE_ERR\<close> and changes nothing: the
  camera, its capture thread, its future and the host are as before. The test and the
  reset of the flag are one critical section under \<^verbatim>\<open>sequenceMutex_\<close>: of two such
  sections, one after the other, the second never lets its start go on. So after a start
  that succeeded every later start is refused in this way, however far the capture
  thread of the first run has come.
\<close>

theorem start_while_running:
  "(\<not> stopSequence s \<longrightarrow>
      StartSequenceAcquisitionImpl fin count soo s = (DEVICE_ERR, s) \<and>
      StartSequenceAcquisition count soo s = (DEVICE_ERR, s) \<and>
      StartSequenceAcquisition_continuous s = (DEVICE_ERR, s)) \<and>
   (stopSequence s \<longrightarrow>
      fst (StartSequenceAcquisitionImpl fin count soo s) = DEVICE_OK \<and>
      (let s1 = (SendSequence_step ^^ n) (snd (StartSequenceAcquisitionImpl fin count soo s))
       in StartSequenceAcquisitionImpl fin' count' soo' s1 = (DEVICE_ERR, s1))) \<and>
   \<not> fst (start_locked (snd (start_locked s)))"
proof (intro conjI impI)
  show "\<not> fst (start_locked (snd (start_locked s)))"
    by (simp add: start_locked_def)
next
  assume "\<not> stopSequence s"
  then show "StartSequenceAcquisitionImpl fin count soo s = (DEVICE_ERR, s)"
    and "StartSequenceAcquisition count soo s = (DEVICE_ERR, s)"
    and "StartSequenceAcquisition_continuous s = (DEVICE_ERR, s)"
    by (simp_all add: StartSequenceAcquisition_def StartSequenceAcquisition_continuous_def
        Start_running)
next
  assume idle: "stopSequence s"
  then show "fst (StartSequenceAcquisitionImpl fin count soo s) = DEVICE_OK"
    by (simp add: Start_stopped)
  from idle have "\<not> stopSequence
      ((SendSequence_step ^^ n) (snd (StartSequenceAcquisitionImpl fin count soo s)))"
    by (simp add: steps_stopSequence Start_stopped)
  then show "let s1 = (SendSequence_step ^^ n) (snd (StartSequenceAcquisitionImpl fin count soo s))
       in StartSequenceAcquisitionImpl fin' count' soo' s1 = (DEVICE_ERR, s1)"
    by (simp add: Let_def Start_running)
qed

theorem start_while_running_witness:
  "\<not> stopSequence (snd (StartSequenceAcquisition 3 False (TesterCamera (host [])))) \<and>
   StartSequenceAcquisition 5 True (snd (StartSequenceAcquisition 3 False (TesterCamera (host [])))) =
     (DEVICE_ERR, snd (StartSequenceAcquisition 3 False (TesterCamera (host [])))) \<and>
   stopSequence (TesterCamera (host [])) \<and>
   fst (StartSequenceAcquisitionImpl True 3 False (TesterCamera (host []))) = DEVICE_OK \<and>
   StartSequenceAcquisitionImpl False 0 False
     ((SendSequence_step ^^ 2) (snd (StartSequenceAcquisitionImpl True 3 False (TesterCamera (host []))))) =
     (DEVICE_ERR,
      (SendSequence_step ^^ 2) (snd (StartSequenceAcquisitionImpl True 3 False (TesterCamera (host [])))))"
proof -
  have running: "\<not> stopSequence (snd (StartSequenceAcquisition 3 False (TesterCamera (host []))))"
    by (simp add: StartSequenceAcquisition_def Start_eq TesterCamera_def)
  have idle: "stopSequence (TesterCamera (host []))"
    by (simp add: TesterCamera_def)
  from running idle
    start_while_running [of "snd (StartSequenceAcquisition 3 False (TesterCamera (host [])))"
      True 5 True]
    start_while_running [of "TesterCamera (host [])" True 3 False 2 False 0 False]
  show ?thesis
    by (simp add: Let_def)
qed

subsection \<open>Stopping twice\<close>

text \<open>
  C4. A stop on a camera that is already stopped returns \<open>DEVICE_OK\<close> and changes
  nothing, so it does so any number of times and tells the host nothing. A stop on any
  camera whose future has a living thread behind it returns; after it the camera is
  stopped, so that a second stop returns \<open>DEVICE_OK\<close> and changes nothing; and the stop
  has sent the host at most one \<^verbatim>\<open>AcqFinished\<close>. In every history of a new camera every
  call returns, and the number of \<^verbatim>\<open>AcqFinished\<close> sent, plus one while a run is on, is
  at most the number of runs started (one \<^verbatim>\<open>PrepareForAcq\<close> each).
\<close>

theorem stop_idempotent:
  "(stopSequence s \<longrightarrow> StopSequenceAcquisition s = Some (DEVICE_OK, s)) \<and>
   (thread_alive s \<longrightarrow>
      (\<exists>r s'. StopSequenceAcquisition s = Some (r, s') \<and>
         StopSequenceAcquisition s' = Some (DEVICE_OK, s') \<and>
         notifications AcqFinishedCall s' \<le> Suc (notifications AcqFinishedCall s))) \<and>
   (core_calls c = [] \<longrightarrow>
      (\<exists>s'. run_events es (TesterCamera c) = Some s' \<and>
         notifications AcqFinishedCall s' + (if stopSequence s' then 0 else 1)
           \<le> notifications PrepareForAcqCall s'))"
proof (intro conjI impI)
  assume "stopSequence s"
  then show "StopSequenceAcquisition s = Some (DEVICE_OK, s)" by (rule Stop_stopped)
next
  assume "thread_alive s"
  from Stop_returns [OF this] obtain r s' where
    st: "StopSequenceAcquisition s = Some (r, s')" by blast
  have "StopSequenceAcquisition s' = Some (DEVICE_OK, s')"
    using Stop_stops [OF st] by (rule Stop_stopped)
  with st Stop_notifications(1) [OF st]
  show "\<exists>r s'. StopSequenceAcquisition s = Some (r, s') \<and>
         StopSequenceAcquisition s' = Some (DEVICE_OK, s') \<and>
         notifications AcqFinishedCall s' \<le> Suc (notifications AcqFinishedCall s)"
    by blast
next
  assume "core_calls c = []"
  then have "balanced (TesterCamera c)" by (rule new_camera_ok)
  from run_events_keeps [OF new_camera_ok(1) this, of es]
  show "\<exists>s'. run_events es (TesterCamera c) = Some s' \<and>
         notifications AcqFinishedCall s' + (if stopSequence s' then 0 else 1)
           \<le> notifications PrepareForAcqCall s'"
    by (auto simp: balanced_def)
qed

theorem stop_idempotent_witness:
  "stopSequence (TesterCamera (host [])) \<and>
   StopSequenceAcquisition (TesterCamera (host [])) = Some (DEVICE_OK, TesterCamera (host [])) \<and>
   thread_alive (snd (StartSequenceAcquisition 1 False (TesterCamera (host [])))) \<and>
   (\<exists>r s'. StopSequenceAcquisition (snd (StartSequenceAcquisition 1 False (TesterCamera (host []))))
              = Some (r, s') \<and>
      StopSequenceAcquisition s' = Some (DEVICE_OK, s') \<and>
      notifications AcqFinishedCall s'
        \<le> Suc (notifications AcqFinishedCall
                  (snd (StartSequenceAcquisition 1 False (TesterCamera (host [])))))) \<and>
   core_calls (host []) = [] \<and>
   (\<exists>s'. run_events [StartCall True 1 False, CaptureThreadMove, StopCall, StopCall]
            (TesterCamera (host [])) = Some s' \<and>
      notifications AcqFinishedCall s' + (if stopSequence s' then 0 else 1)
        \<le> notifications PrepareForAcqCall s')"
proof -
  have idle: "stopSequence (TesterCamera (host []))"
    by (simp add: TesterCamera_def)
  have alive: "thread_alive (snd (StartSequenceAcquisition 1 False (TesterCamera (host []))))"
    by (simp add: thread_alive_def StartSequenceAcquisition_def
        Start_eq TesterCamera_def)
  have new: "core_calls (host []) = []"
    by (simp add: host_def)
  from idle alive new
    stop_idempotent [of "TesterCamera (host [])" "host []"
      "[StartCall True 1 False, CaptureThreadMove, StopCall, StopCall]"]
    stop_idempotent [of "snd (StartSequenceAcquisition 1 False (TesterCamera (host [])))" "host []" "[]"]
  show ?thesis
    by blast
qed

subsection \<open>The counts in the frames of a run\<close>



subsection \<open>A run of no frames\<close>

text \<open>
  C8. A finite run with \<open>count = 0\<close>, started on a stopped camera: the start succeeds,
  and the first move of the capture thread is its last: the thread has ended, the future
  is ready with a plain return, and a wait on it returns at once. The host has been
  sent \<^verbatim>\<open>PrepareForAcq\<close> and nothing else: no image was made or inserted, and the
  cumulative counter is as before. As after every run that ends by itself, the camera
  goes on answering \<^verbatim>\<open>IsCapturing\<close> with true until it is stopped; the stop then
  sends \<^verbatim>\<open>AcqFinished\<close> and returns its code.
\<close>

theorem zero_frame_run:
  assumes "stopSequence s"
  shows "fst (StartSequenceAcquisition 0 soo s) = DEVICE_OK \<and>
    (\<exists>w. captureThread (SendSequence_step (snd (StartSequenceAcquisition 0 soo s))) = Some w \<and>
         w_pc w = Finished) \<and>
    sequenceFuture (SendSequence_step (snd (StartSequenceAcquisition 0 soo s))) = ready Returned \<and>
    future_get (snd (StartSequenceAcquisition 0 soo s)) =
      Some (Returned, SendSequence_step (snd (StartSequenceAcquisition 0 soo s))) \<and>
    core_calls (coreCallback (SendSequence_step (snd (StartSequenceAcquisition 0 soo s)))) =
      core_calls (coreCallback s) @ [PrepareForAcqCall] \<and>
    frames (SendSequence_step (snd (StartSequenceAcquisition 0 soo s))) = frames s \<and>
    cumulativeSequenceCounter (SendSequence_step (snd (StartSequenceAcquisition 0 soo s))) =
      cumulativeSequenceCounter s \<and>
    IsCapturing (SendSequence_step (snd (StartSequenceAcquisition 0 soo s))) \<and>
    (\<exists>s'. StopSequenceAcquisition (SendSequence_step (snd (StartSequenceAcquisition 0 soo s))) =
            Some (finished_code (coreCallback s), s') \<and>
       \<not> IsCapturing s' \<and>
       core_calls (coreCallback s') =
         core_calls (coreCallback s) @ [PrepareForAcqCall, AcqFinishedCall])"
proof -
  let ?s1 = "snd (StartSequenceAcquisition 0 soo s)"
  let ?w = "\<lparr>w_finite = True, w_count = 0, w_stopOnOverflow = soo, w_frame = 0,
             w_pc = LoopTest\<rparr>"
  have s1: "?s1 = s\<lparr>stopSequence := False,
           coreCallback := PrepareForAcq (coreCallback s),
           sequenceFuture := waiting,
           captureThread := Some ?w\<rparr>"
    and ok: "fst (StartSequenceAcquisition 0 soo s) = DEVICE_OK"
    using assms by (simp_all add: StartSequenceAcquisition_def Start_eq)
  have st: "SendSequence_step ?s1 = finish_task Returned ?w ?s1"
    by (simp add: s1 SendSequence_step_def)
  have w: "sequenceFuture ?s1 = waiting"
    by (simp add: s1)
  have "future_get ?s1 = future_get (SendSequence_step ?s1)"
    using w by (rule future_get_waiting)
  also have "\<dots> = Some (Returned, SendSequence_step ?s1)"
    by (rule future_get_ready) (simp add: st finish_task_def)
  finally have g: "future_get ?s1 = Some (Returned, SendSequence_step ?s1)" .
  have rest: "(\<exists>w. captureThread (SendSequence_step ?s1) = Some w \<and> w_pc w = Finished)"
    "sequenceFuture (SendSequence_step ?s1) = ready Returned"
    "core_calls (coreCallback (SendSequence_step ?s1)) = core_calls (coreCallback s) @ [PrepareForAcqCall]"
    "frames (SendSequence_step ?s1) = frames s"
    "cumulativeSequenceCounter (SendSequence_step ?s1) = cumulativeSequenceCounter s"
    "IsCapturing (SendSequence_step ?s1)"
    unfolding st
    by (simp_all add: finish_task_def s1 PrepareForAcq_def frames_def first_deliveries_append
        IsCapturing_def)
  have run: "\<not> stopSequence (SendSequence_step ?s1)"
    using rest(6) by (simp add: IsCapturing_def)
  have code: "finished_code (coreCallback (SendSequence_step ?s1)) = finished_code (coreCallback s)"
    unfolding st by (simp add: finish_task_def s1 PrepareForAcq_def)
  have stop: "\<exists>s'. StopSequenceAcquisition (SendSequence_step ?s1) =
            Some (finished_code (coreCallback s), s') \<and>
       \<not> IsCapturing s' \<and>
       core_calls (coreCallback s') =
         core_calls (coreCallback s) @ [PrepareForAcqCall, AcqFinishedCall]"
    using Stop_after_return [OF run rest(2)]
    by (simp add: code rest(3) IsCapturing_def)
  from ok g rest stop show ?thesis by blast
qed

theorem zero_frame_run_witness:
  "stopSequence (TesterCamera (host [])) \<and>
   fst (StartSequenceAcquisition 0 True (TesterCamera (host []))) = DEVICE_OK \<and>
   sequenceFuture (SendSequence_step (snd (StartSequenceAcquisition 0 True (TesterCamera (host [])))))
     = ready Returned \<and>
   core_calls (coreCallback
     (SendSequence_step (snd (StartSequenceAcquisition 0 True (TesterCamera (host [])))))) =
     [PrepareForAcqCall]"
proof -
  have idle: "stopSequence (TesterCamera (host []))"
    and new: "core_calls (coreCallback (TesterCamera (host []))) = []"
    by (simp_all add: TesterCamera_def host_def)
  from idle zero_frame_run [of "TesterCamera (host [])" True]
  show ?thesis
    by (simp add: new)
qed

subsection \<open>Overflow of the host's buffer\<close>

lemma count_list_firsts:
  "count_list (map (\<lambda>img. InsertImageCall img True) imgs) ClearImageBufferCall = 0"
  by (induction imgs) simp_all

lemma step_overflow:
  assumes "captureThread s = Some w" and "w_pc w = LoopTest" and "\<not> stopSequence s"
    and "\<not> w_finite w \<or> w_frame w < w_count w"
    and "\<not> w_stopOnOverflow w"
    and "insert_script (coreCallback s) = DEVICE_BUFFER_OVERFLOW # rest"
    and "rest = [] \<or> (\<exists>rs. rest = DEVICE_OK # rs)"
  shows "SendSequence_step s =
     s\<lparr>cumulativeSequenceCounter := cumulativeSequenceCounter s + 1,
       coreCallback := (coreCallback s)
         \<lparr>insert_script := tl rest,
          core_calls := core_calls (coreCallback s) @
            [InsertImageCall
               (GenerateLogImage True (cumulativeSequenceCounter s) (word_of_int (w_frame w)))
               True,
             ClearImageBufferCall,
             InsertImageCall
               (GenerateLogImage True (cumulativeSequenceCounter s) (word_of_int (w_frame w)))
               False]\<rparr>,
       captureThread := Some (w\<lparr>w_frame := w_frame w + 1\<rparr>)\<rparr>"
  using assms
  by (auto simp: SendSequence_step_def deliver_frame_def InsertImage_def ClearImageBuffer_def
      Let_def)

lemma deliver_overflow_calls:
  assumes "\<not> w_stopOnOverflow w"
    and "insert_script (coreCallback s) = DEVICE_BUFFER_OVERFLOW # rest"
  shows "core_calls (coreCallback (snd (deliver_frame w s))) =
     core_calls (coreCallback s) @
       [InsertImageCall
          (GenerateLogImage True (cumulativeSequenceCounter s) (word_of_int (w_frame w))) True,
        ClearImageBufferCall,
        InsertImageCall
          (GenerateLogImage True (cumulativeSequenceCounter s) (word_of_int (w_frame w))) False]"
  using assms
  by (simp add: deliver_frame_def Let_def case_prod_beta InsertImage_calls ClearImageBuffer_def)
     (simp add: InsertImage_def)

lemma step_overflow_calls:
  assumes "captureThread s = Some w" and "w_pc w = LoopTest" and "\<not> stopSequence s"
    and "\<not> w_finite w \<or> w_frame w < w_count w"
    and "\<not> w_stopOnOverflow w"
    and "insert_script (coreCallback s) = DEVICE_BUFFER_OVERFLOW # rest"
  shows "core_calls (coreCallback (SendSequence_step s)) =
     core_calls (coreCallback s) @
       [InsertImageCall
          (GenerateLogImage True (cumulativeSequenceCounter s) (word_of_int (w_frame w))) True,
        ClearImageBufferCall,
        InsertImageCall
          (GenerateLogImage True (cumulativeSequenceCounter s) (word_of_int (w_frame w))) False]"
proof -
  from assms(1-4) have "coreCallback (SendSequence_step s) = coreCallback (snd (deliver_frame w s))"
    by (auto simp: SendSequence_step_def Let_def case_prod_beta)
  with deliver_overflow_calls [OF assms(5,6)] show ?thesis by simp
qed

text \<open>
  C6. The capture thread is about to make a frame, \<^verbatim>\<open>stopOnOverflow\<close> is off, and the
  host answers the delivery with \<open>DEVICE_BUFFER_OVERFLOW\<close>. Then this turn of the loop
  sends the host exactly three calls: the delivery, one \<^verbatim>\<open>ClearImageBuffer\<close>, and one
  second delivery of the same image with \<^verbatim>\<open>false\<close> as last argument. If the host
  answers the second delivery with \<open>DEVICE_OK\<close>, the thread goes on to the next frame
  and the future is untouched. If moreover the run is finite and the host accepts
  whatever follows, the run ends by itself with a plain return, every frame from this
  one on having been made, and with that one \<^verbatim>\<open>ClearImageBuffer\<close> only.
\<close>

theorem overflow_retry:
  assumes "captureThread s = Some w" and "w_pc w = LoopTest" and "\<not> stopSequence s"
    and "\<not> w_finite w \<or> w_frame w < w_count w"
    and "\<not> w_stopOnOverflow w"
    and "insert_script (coreCallback s) = DEVICE_BUFFER_OVERFLOW # rest"
  shows "core_calls (coreCallback (SendSequence_step s)) =
      core_calls (coreCallback s) @
        [InsertImageCall
           (GenerateLogImage True (cumulativeSequenceCounter s) (word_of_int (w_frame w))) True,
         ClearImageBufferCall,
         InsertImageCall
           (GenerateLogImage True (cumulativeSequenceCounter s) (word_of_int (w_frame w))) False] \<and>
    (rest = [] \<or> (\<exists>rs. rest = DEVICE_OK # rs) \<longrightarrow>
       captureThread (SendSequence_step s) = Some (w\<lparr>w_frame := w_frame w + 1\<rparr>) \<and>
       sequenceFuture (SendSequence_step s) = sequenceFuture s \<and>
       insert_script (coreCallback (SendSequence_step s)) = tl rest) \<and>
    (w_finite w \<and> sequenceFuture s = waiting \<and> (rest = [] \<or> rest = [DEVICE_OK]) \<longrightarrow>
       (\<exists>s'. future_get s = Some (Returned, s') \<and>
          frames s' = frames s @
            run_images (cumulativeSequenceCounter s) (w_frame w) (nat (w_count w - w_frame w)) \<and>
          notifications ClearImageBufferCall s' = Suc (notifications ClearImageBufferCall s)))"
proof (intro conjI impI)
  show "core_calls (coreCallback (SendSequence_step s)) =
      core_calls (coreCallback s) @
        [InsertImageCall
           (GenerateLogImage True (cumulativeSequenceCounter s) (word_of_int (w_frame w))) True,
         ClearImageBufferCall,
         InsertImageCall
           (GenerateLogImage True (cumulativeSequenceCounter s) (word_of_int (w_frame w))) False]"
    using assms by (rule step_overflow_calls)
next
  assume r: "rest = [] \<or> (\<exists>rs. rest = DEVICE_OK # rs)"
  note st = step_overflow [OF assms r]
  show "captureThread (SendSequence_step s) = Some (w\<lparr>w_frame := w_frame w + 1\<rparr>)"
    and "sequenceFuture (SendSequence_step s) = sequenceFuture s"
    and "insert_script (coreCallback (SendSequence_step s)) = tl rest"
    by (simp_all add: st)
next
  assume a: "w_finite w \<and> sequenceFuture s = waiting \<and> (rest = [] \<or> rest = [DEVICE_OK])"
  then have r: "rest = [] \<or> (\<exists>rs. rest = DEVICE_OK # rs)" and tl: "tl rest = []"
    by auto
  from a assms(4) have lt: "w_frame w < w_count w" by simp
  let ?w = "w\<lparr>w_frame := w_frame w + 1\<rparr>"
  let ?s = "SendSequence_step s"
  let ?k = "nat (w_count w - w_frame w - 1)"
  note st = step_overflow [OF assms r]
  have "future_get s = future_get ?s"
    using a by (simp add: future_get_waiting)
  also have "\<dots> = Some (Returned, after_run ?k ?w ?s)"
  proof (rule finite_run)
    show "captureThread ?s = Some ?w" by (simp add: st)
    show "w_pc ?w = LoopTest" using assms(2) by simp
    show "w_finite ?w" using a by simp
    show "\<not> stopSequence ?s" using assms(3) by (simp add: st)
    show "sequenceFuture ?s = waiting" using a by (simp add: st)
    show "insert_script (coreCallback ?s) = []" by (simp add: st tl)
    show "nat (w_count ?w - w_frame ?w) = ?k" by simp
  qed
  finally have g: "future_get s = Some (Returned, after_run ?k ?w ?s)" .
  have k: "Suc ?k = nat (w_count w - w_frame w)"
    using lt by simp
  have "frames (after_run ?k ?w ?s) =
      frames s @ run_images (cumulativeSequenceCounter s) (w_frame w) (Suc ?k)"
    by (simp add: frames_after_run run_images_Suc)
       (simp add: st frames_def first_deliveries_append)
  then have f: "frames (after_run ?k ?w ?s) =
      frames s @ run_images (cumulativeSequenceCounter s) (w_frame w) (nat (w_count w - w_frame w))"
    by (simp only: k)
  have n: "notifications ClearImageBufferCall (after_run ?k ?w ?s) =
      Suc (notifications ClearImageBufferCall s)"
    by (simp add: notifications_def after_run_def count_list_firsts)
       (simp add: st)
  from g f n show "\<exists>s'. future_get s = Some (Returned, s') \<and>
          frames s' = frames s @
            run_images (cumulativeSequenceCounter s) (w_frame w) (nat (w_count w - w_frame w)) \<and>
          notifications ClearImageBufferCall s' = Suc (notifications ClearImageBufferCall s)"
    by blast
qed

theorem overflow_retry_witness:
  "captureThread (snd (StartSequenceAcquisition 2 False (TesterCamera (host [DEVICE_BUFFER_OVERFLOW])))) =
     Some \<lparr>w_finite = True, w_count = 2, w_stopOnOverflow = False, w_frame = 0, w_pc = LoopTest\<rparr> \<and>
   \<not> stopSequence (snd (StartSequenceAcquisition 2 False (TesterCamera (host [DEVICE_BUFFER_OVERFLOW])))) \<and>
   insert_script (coreCallback
       (snd (StartSequenceAcquisition 2 False (TesterCamera (host [DEVICE_BUFFER_OVERFLOW]))))) =
     [DEVICE_BUFFER_OVERFLOW] \<and>
   core_calls (coreCallback (SendSequence_step
       (snd (StartSequenceAcquisition 2 False (TesterCamera (host [DEVICE_BUFFER_OVERFLOW])))))) =
     [PrepareForAcqCall,
      InsertImageCall \<lparr>im_isSequenceImage = True, im_cumulativeCount = 0, im_localCount = 0\<rparr> True,
      ClearImageBufferCall,
      InsertImageCall \<lparr>im_isSequenceImage = True, im_cumulativeCount = 0, im_localCount = 0\<rparr> False] \<and>
   (\<exists>s'. future_get (snd (StartSequenceAcquisition 2 False
              (TesterCamera (host [DEVICE_BUFFER_OVERFLOW])))) = Some (Returned, s') \<and>
      frames s' =
        [\<lparr>im_isSequenceImage = True, im_cumulativeCount = 0, im_localCount = 0\<rparr>,
         \<lparr>im_isSequenceImage = True, im_cumulativeCount = 1, im_localCount = 1\<rparr>] \<and>
      notifications ClearImageBufferCall s' = 1)"
proof -
  let ?s = "snd (StartSequenceAcquisition 2 False (TesterCamera (host [DEVICE_BUFFER_OVERFLOW])))"
  let ?w = "\<lparr>w_finite = True, w_count = 2, w_stopOnOverflow = False, w_frame = 0, w_pc = LoopTest\<rparr>"
  have s: "?s = \<lparr>cumulativeSequenceCounter = 0, stopSequence = False,
      sequenceFuture = waiting, captureThread = Some ?w,
      coreCallback = \<lparr>insert_script = [DEVICE_BUFFER_OVERFLOW], finished_code = DEVICE_OK,
        core_calls = [PrepareForAcqCall]\<rparr>\<rparr>"
    by (simp add: StartSequenceAcquisition_def Start_eq TesterCamera_def
        host_def PrepareForAcq_def)
  have h: "captureThread ?s = Some ?w" "w_pc ?w = LoopTest" "\<not> stopSequence ?s"
    "\<not> w_finite ?w \<or> w_frame ?w < w_count ?w" "\<not> w_stopOnOverflow ?w"
    "insert_script (coreCallback ?s) = DEVICE_BUFFER_OVERFLOW # []"
    by (simp_all add: s)
  have v: "sequenceFuture ?s = waiting" "frames ?s = []" "cumulativeSequenceCounter ?s = 0"
    "notifications ClearImageBufferCall ?s = 0" "core_calls (coreCallback ?s) = [PrepareForAcqCall]"
    by (simp_all add: s frames_def notifications_def)
  have two: "run_images 0 0 2 =
        [\<lparr>im_isSequenceImage = True, im_cumulativeCount = 0, im_localCount = 0\<rparr>,
         \<lparr>im_isSequenceImage = True, im_cumulativeCount = 1, im_localCount = 1\<rparr>]"
    by (simp add: run_images_def GenerateLogImage_def upt_rec)
  from overflow_retry [OF h] h(1,3,6) show ?thesis
    by (simp add: v two GenerateLogImage_def)
qed

subsection \<open>An error in the capture thread\<close>

text \<open>A failed delivery with the stop flag unset ends the thread; the error is kept in
  the future and nothing else changes.\<close>

lemma step_error_captured:
  assumes "captureThread s = Some w" and "w_pc w = ErrorCheck err" and "\<not> stopSequence s"
  shows "SendSequence_step s = finish_task (Threw err) w s"
  using assms by (simp add: SendSequence_step_def)

text \<open>The next stop returns the code, resets the future and does not call the host; a
  further stop returns \<open>DEVICE_OK\<close>.\<close>

lemma Stop_surfaces_error:
  assumes "\<not> stopSequence s" and "sequenceFuture s = ready (Threw e)"
  shows "StopSequenceAcquisition s =
           Some (e, s\<lparr>stopSequence := True, sequenceFuture := uninitialized\<rparr>)"
    and "StopSequenceAcquisition (s\<lparr>stopSequence := True, sequenceFuture := uninitialized\<rparr>) =
           Some (DEVICE_OK, s\<lparr>stopSequence := True, sequenceFuture := uninitialized\<rparr>)"
proof -
  have "future_get (s\<lparr>stopSequence := True\<rparr>) = Some (Threw e, s\<lparr>stopSequence := True\<rparr>)"
    by (rule future_get_ready) (simp add: assms)
  with assms show "StopSequenceAcquisition s =
           Some (e, s\<lparr>stopSequence := True, sequenceFuture := uninitialized\<rparr>)"
    by (simp add: Stop_eq Let_def)
  show "StopSequenceAcquisition (s\<lparr>stopSequence := True, sequenceFuture := uninitialized\<rparr>) =
           Some (DEVICE_OK, s\<lparr>stopSequence := True, sequenceFuture := uninitialized\<rparr>)"
    by (simp add: Stop_eq)
qed

text \<open>
  C5. A new camera whose host answers the first \<^verbatim>\<open>InsertImage\<close> with \<open>DEVICE_ERR\<close>; a
  finite run of one frame is started and the capture thread moves twice: it delivers,
  and at the look at the stop flag it throws. The error is then in the future. The stop
  that follows returns \<open>DEVICE_ERR\<close> and resets the future, and the stop after that
  returns \<open>DEVICE_OK\<close>; but the host has been sent \<^verbatim>\<open>PrepareForAcq\<close> and the one
  \<^verbatim>\<open>InsertImage\<close> only: the stop that completed the run did not send \<^verbatim>\<open>AcqFinished\<close>,
  and no later stop will.
\<close>

theorem stop_after_worker_error:
  "\<exists>s s'.
     run_events [StartCall True 1 True, CaptureThreadMove, CaptureThreadMove]
       (TesterCamera (host [DEVICE_ERR])) = Some s \<and>
     sequenceFuture s = ready (Threw DEVICE_ERR) \<and>
     StopSequenceAcquisition s = Some (DEVICE_ERR, s') \<and>
     sequenceFuture s' = uninitialized \<and>
     core_calls (coreCallback s') =
       [PrepareForAcqCall,
        InsertImageCall \<lparr>im_isSequenceImage = True, im_cumulativeCount = 0, im_localCount = 0\<rparr>
          True] \<and>
     notifications AcqFinishedCall s' = 0 \<and>
     StopSequenceAcquisition s' = Some (DEVICE_OK, s')"
proof -
  let ?w = "\<lparr>w_finite = True, w_count = 1, w_stopOnOverflow = True, w_frame = 0, w_pc = LoopTest\<rparr>"
  let ?img = "\<lparr>im_isSequenceImage = True, im_cumulativeCount = 0, im_localCount = 0\<rparr>"
  let ?s1 = "snd (StartSequenceAcquisitionImpl True 1 True (TesterCamera (host [DEVICE_ERR])))"
  let ?c = "\<lparr>insert_script = [], finished_code = DEVICE_OK,
             core_calls = [PrepareForAcqCall, InsertImageCall ?img True]\<rparr>"
  have s1: "?s1 = \<lparr>cumulativeSequenceCounter = 0, stopSequence = False,
      sequenceFuture = waiting, captureThread = Some ?w,
      coreCallback = \<lparr>insert_script = [DEVICE_ERR], finished_code = DEVICE_OK,
        core_calls = [PrepareForAcqCall]\<rparr>\<rparr>"
    by (simp add: Start_eq TesterCamera_def host_def PrepareForAcq_def)
  have s2: "SendSequence_step ?s1 = \<lparr>cumulativeSequenceCounter = 1,
      stopSequence = False, sequenceFuture = waiting,
      captureThread = Some (?w\<lparr>w_pc := ErrorCheck DEVICE_ERR\<rparr>), coreCallback = ?c\<rparr>"
    unfolding s1
    by (simp add: SendSequence_step_def deliver_frame_def InsertImage_def Let_def
        GenerateLogImage_def)
  have s3: "SendSequence_step (SendSequence_step ?s1) = \<lparr>cumulativeSequenceCounter = 1, stopSequence = False,
      sequenceFuture = ready (Threw DEVICE_ERR),
      captureThread = Some (?w\<lparr>w_pc := Finished\<rparr>), coreCallback = ?c\<rparr>"
    unfolding s2
    by (simp add: SendSequence_step_def finish_task_def)
  let ?s = "SendSequence_step (SendSequence_step ?s1)"
  let ?s' = "?s\<lparr>stopSequence := True, sequenceFuture := uninitialized\<rparr>"
  have run: "\<not> stopSequence ?s"
    and thrown: "sequenceFuture ?s = ready (Threw DEVICE_ERR)"
    by (simp_all add: s3)
  note stop = Stop_surfaces_error [OF run thrown]
  have "run_events [StartCall True 1 True, CaptureThreadMove, CaptureThreadMove]
       (TesterCamera (host [DEVICE_ERR])) = Some ?s"
    by simp
  moreover have "sequenceFuture ?s' = uninitialized"
    "core_calls (coreCallback ?s') = [PrepareForAcqCall, InsertImageCall ?img True]"
    "notifications AcqFinishedCall ?s' = 0"
    by (simp_all add: s3 notifications_def)
  ultimately show ?thesis
    using thrown stop by blast
qed

subsection \<open>Setting both positions of the XY stage\<close>

text \<open>
  C10. For every pair \<open>(x, y)\<close> and whatever \<^verbatim>\<open>MarkBusy\<close> and the two \<^verbatim>\<open>Set\<close> functions
  do, \<^verbatim>\<open>SetPositionSteps\<close> takes the guard once, marks the device busy, calls \<^verbatim>\<open>Set\<close>
  on the X setting and then \<^verbatim>\<open>Set\<close> on the Y setting, on what the X call left, and
  only then releases the guard, also when the X call failed. It returns the code of the
  X call if that is not \<open>DEVICE_OK\<close>, and the code of the Y call otherwise.
\<close>

theorem SetPositionSteps_both:
  "stage_calls (snd (SetPositionSteps markBusy xSet ySet x y s)) =
     stage_calls s @ [GuardAcquire, MarkBusyCall, XSetCall x, YSetCall y, GuardRelease] \<and>
   stage_settings (snd (SetPositionSteps markBusy xSet ySet x y s)) =
     snd (ySet y (snd (xSet x (markBusy (stage_settings s))))) \<and>
   fst (SetPositionSteps markBusy xSet ySet x y s) =
     (if fst (xSet x (markBusy (stage_settings s))) \<noteq> DEVICE_OK
        then fst (xSet x (markBusy (stage_settings s)))
      else if fst (ySet y (snd (xSet x (markBusy (stage_settings s))))) \<noteq> DEVICE_OK
        then fst (ySet y (snd (xSet x (markBusy (stage_settings s)))))
      else DEVICE_OK)"
  by (simp add: SetPositionSteps_def stage_call_def Let_def case_prod_beta)

text \<open>A stage whose X setting refuses every value and whose Y setting stores it.\<close>

lemma SetPositionSteps_example:
  "SetPositionSteps id (\<lambda>v d. (DEVICE_ERR, d)) (\<lambda>v d. (DEVICE_OK, (fst d, v))) 3 4
     \<lparr>stage_calls = [], stage_settings = (0, 0)\<rparr> =
   (DEVICE_ERR,
    \<lparr>stage_calls = [GuardAcquire, MarkBusyCall, XSetCall 3, YSetCall 4, GuardRelease],
      stage_settings = (0, 4)\<rparr>)"
  by (simp add: SetPositionSteps_def stage_call_def)

subsection \<open>The sequence numbers of the log\<close>

lemma consecutive_snoc:
  "consecutive (xs @ [a]) \<Longrightarrow> consecutive (xs @ [a, Suc a])"
  by (induction xs rule: consecutive.induct) simp_all

lemma consecutive_butlast:
  "consecutive (xs @ [a]) \<Longrightarrow> consecutive xs"
  by (induction xs rule: consecutive.induct) simp_all

lemma consecutive_nth:
  "consecutive xs \<Longrightarrow> Suc i < length xs \<Longrightarrow> xs ! Suc i = Suc (xs ! i)"
proof (induction xs arbitrary: i rule: consecutive.induct)
  case (1 x y ys)
  show ?case
  proof (cases i)
    case 0
    with "1.prems" show ?thesis by simp
  next
    case (Suc j)
    from "1.prems" have y: "y = Suc x" and c: "consecutive (y # ys)" by auto
    from "1.prems" Suc have "Suc j < length (y # ys)" by simp
    from "1.IH" [OF c this] Suc show ?thesis by simp
  qed
qed simp_all

lemma consecutive_upt:
  "consecutive (x # xs) \<Longrightarrow> x # xs = [x ..< x + Suc (length xs)]"
proof (induction xs arbitrary: x)
  case Nil
  show ?case by simp
next
  case (Cons y ys)
  then have y: "y = Suc x" and c: "consecutive (y # ys)" by auto
  have "[x ..< x + Suc (length (y # ys))] = x # [Suc x ..< x + Suc (length (y # ys))]"
    by (rule upt_conv_Cons) simp
  also have "[Suc x ..< x + Suc (length (y # ys))] = [y ..< y + Suc (length ys)]"
    by (simp add: y del: upt_Suc)
  also have "\<dots> = y # ys"
    using Cons.IH [OF c] by simp
  finally show ?case by simp
qed

lemma consecutive_before:
  assumes "consecutive (xs @ [c])"
  shows "xs = [c - length xs ..< c] \<and> length xs \<le> c"
proof -
  obtain h t where ht: "xs @ [c] = h # t"
    by (cases "xs @ [c]") simp_all
  then have n: "length t = length xs"
    by (metis length_Cons length_append_singleton nat.inject)
  from assms ht have "h # t = [h ..< h + Suc (length t)]"
    using consecutive_upt [of h t] by simp
  with ht n have "xs @ [c] = [h ..< h + length xs] @ [h + length xs]"
    by simp
  then have xs: "xs = [h ..< h + length xs]" and c: "c = h + length xs"
    by (simp_all only: append1_eq_conv)
  from c have "h = c - length xs" and "length xs \<le> c" by arith+
  with xs c show ?thesis by metis
qed

lemma consecutive_increasing:
  assumes "consecutive xs"
  shows "sorted_wrt (<) xs \<and> distinct xs"
proof (cases xs)
  case Nil
  then show ?thesis by simp
next
  case (Cons x t)
  with assms have "xs = [x ..< x + Suc (length t)]"
    using consecutive_upt [of x t] by simp
  moreover have "sorted_wrt (<) [x ..< x + Suc (length t)]"
    "distinct [x ..< x + Suc (length t)]"
    by (simp_all add: sorted_wrt_upt del: upt_Suc)
  ultimately show ?thesis by metis
qed

lemma record_entry_ok:
  assumes "logger_ok lg"
  shows "logger_ok (record_entry k thread name txt lg)"
  using consecutive_snoc [OF assms [unfolded logger_ok_def]]
  by (simp add: logger_ok_def sequence_numbers_def record_entry_def)

lemma setting_set_ok:
  assumes "logger_ok lg"
  shows "logger_ok (fst (snd (setting_set render thread v (lg, st))))"
  using assms by (simp add: setting_set_def recordWrite_def record_entry_ok)

lemma setting_get_ok:
  assumes "logger_ok lg"
  shows "logger_ok (fst (snd (setting_get render thread (lg, st))))"
  using assms by (simp add: setting_get_def recordRead_def record_entry_ok)

lemma apply_call_ok:
  assumes "logger_ok (fst p)"
  shows "logger_ok (fst (apply_call render c p))"
proof (cases p)
  case (Pair lg sts)
  with assms have ok: "logger_ok lg" by simp
  show ?thesis
  proof (cases c)
    case (GetCall thread name)
    with Pair ok show ?thesis
      by (simp add: case_prod_beta setting_get_ok split: option.splits)
  next
    case (SetCall thread name v)
    with Pair ok show ?thesis
      by (simp add: case_prod_beta setting_set_ok split: option.splits)
  qed
qed

text \<open>The counter moves with the length of the log.\<close>

lemma apply_call_counter:
  "log_counter (fst (apply_call render c p)) + length (log_entries (fst p)) =
     log_counter (fst p) + length (log_entries (fst (apply_call render c p)))"
proof (cases p)
  case (Pair lg sts)
  show ?thesis
  proof (cases c)
    case (GetCall thread name)
    with Pair show ?thesis
      by (simp add: setting_get_def recordRead_def record_entry_def split: option.splits)
  next
    case (SetCall thread name v)
    with Pair show ?thesis
      by (simp add: setting_set_def recordWrite_def record_entry_def split: option.splits)
  qed
qed

lemma run_calls_counter:
  "log_counter (fst (run_calls render cs p)) + length (log_entries (fst p)) =
     log_counter (fst p) + length (log_entries (fst (run_calls render cs p)))"
proof (induction cs arbitrary: p)
  case Nil
  then show ?case by simp
next
  case (Cons c cs)
  from Cons.IH [of "apply_call render c p"] apply_call_counter [of render c p]
  show ?case by simp
qed

lemma run_calls_ok:
  "logger_ok (fst p) \<Longrightarrow> logger_ok (fst (run_calls render cs p))"
  by (induction cs arbitrary: p) (simp_all add: apply_call_ok)

text \<open>Entries are only ever added at the end.\<close>

lemma apply_call_appends:
  "\<exists>new. log_entries (fst (apply_call render c p)) = log_entries (fst p) @ new"
proof (cases p)
  case (Pair lg sts)
  show ?thesis
  proof (cases c)
    case (GetCall thread name)
    with Pair show ?thesis
      by (auto simp: setting_get_def recordRead_def record_entry_def split: option.splits)
  next
    case (SetCall thread name v)
    with Pair show ?thesis
      by (auto simp: setting_set_def recordWrite_def record_entry_def split: option.splits)
  qed
qed

lemma run_calls_appends:
  "\<exists>new. log_entries (fst (run_calls render cs p)) = log_entries (fst p) @ new"
proof (induction cs arbitrary: p)
  case Nil
  then show ?case by simp
next
  case (Cons c cs)
  from apply_call_appends [of render c p] obtain n1 where
    "log_entries (fst (apply_call render c p)) = log_entries (fst p) @ n1" by blast
  moreover from Cons.IH [of "apply_call render c p"] obtain n2 where
    "log_entries (fst (run_calls render cs (apply_call render c p))) =
       log_entries (fst (apply_call render c p)) @ n2" by blast
  ultimately show ?case by simp
qed

text \<open>
  C1. Whatever calls of Get and Set are made, by whatever threads and on whatever
  settings, on a logger in its usual state (for one, a new logger): the sequence numbers
  of the entries in the log, in the order of the log, go up by one from each entry to
  the next, so they increase strictly and none occurs twice; the entries that were there
  are still there, in front of the new ones; and on a new logger the numbers are
  \<open>0, 1, 2, ...\<close>.
\<close>

theorem sequence_numbers_consecutive:
  assumes "logger_ok lg"
  shows "consecutive (sequence_numbers (fst (run_calls render calls (lg, sts)))) \<and>
    sorted_wrt (<) (sequence_numbers (fst (run_calls render calls (lg, sts)))) \<and>
    distinct (sequence_numbers (fst (run_calls render calls (lg, sts)))) \<and>
    (\<forall>i. Suc i < length (sequence_numbers (fst (run_calls render calls (lg, sts)))) \<longrightarrow>
       sequence_numbers (fst (run_calls render calls (lg, sts))) ! Suc i =
       Suc (sequence_numbers (fst (run_calls render calls (lg, sts))) ! i)) \<and>
    (\<exists>new. log_entries (fst (run_calls render calls (lg, sts))) = log_entries lg @ new) \<and>
    (lg = new_logger \<longrightarrow>
       sequence_numbers (fst (run_calls render calls (lg, sts))) =
         [0 ..< length (log_entries (fst (run_calls render calls (lg, sts))))])"
proof -
  let ?lg = "fst (run_calls render calls (lg, sts))"
  let ?ns = "sequence_numbers ?lg"
  from assms have "logger_ok ?lg"
    using run_calls_ok [of "(lg, sts)" render calls] by simp
  then have ok: "consecutive (?ns @ [log_counter ?lg])"
    by (simp add: logger_ok_def)
  then have c: "consecutive ?ns" by (rule consecutive_butlast)
  have app: "\<exists>new. log_entries ?lg = log_entries lg @ new"
    using run_calls_appends [of render calls "(lg, sts)"] by simp
  have new: "?ns = [0 ..< length (log_entries ?lg)]" if "lg = new_logger"
  proof -
    from that run_calls_counter [of render calls "(lg, sts)"]
    have "log_counter ?lg = length (log_entries ?lg)"
      by (simp add: new_logger_def)
    with consecutive_before [OF ok] show ?thesis
      by (simp add: sequence_numbers_def)
  qed
  from c consecutive_increasing [OF c] consecutive_nth [OF c] app new
  show ?thesis by blast
qed

theorem sequence_numbers_consecutive_witness:
  "logger_ok new_logger \<and>
   sequence_numbers (fst (run_calls (\<lambda>v. if v < 0 then ''-'' else ''+'')
     [SetCall 1 ''Exposure'' 50, GetCall 2 ''Exposure'', SetCall 2 ''Binning'' 7,
      SetCall 1 ''Binning'' 1]
     (new_logger,
      [''Exposure'' \<mapsto> \<lparr>setting_name = ''Exposure'', setting_value = 100::int,
          setting_min_max = Some (1, 1000), preInitOnly = False, initialized = True\<rparr>,
       ''Binning'' \<mapsto> \<lparr>setting_name = ''Binning'', setting_value = 1,
          setting_min_max = Some (1, 1), preInitOnly = False, initialized = True\<rparr>]))) =
     [0, 1, 2]"
proof -
  let ?run = "run_calls (\<lambda>v. if v < 0 then ''-'' else ''+'')
     [SetCall 1 ''Exposure'' 50, GetCall 2 ''Exposure'', SetCall 2 ''Binning'' 7,
      SetCall 1 ''Binning'' 1]
     (new_logger,
      [''Exposure'' \<mapsto> \<lparr>setting_name = ''Exposure'', setting_value = 100::int,
          setting_min_max = Some (1, 1000), preInitOnly = False, initialized = True\<rparr>,
       ''Binning'' \<mapsto> \<lparr>setting_name = ''Binning'', setting_value = 1,
          setting_min_max = Some (1, 1), preInitOnly = False, initialized = True\<rparr>])"
  have ok: "logger_ok new_logger"
    by (simp add: logger_ok_def new_logger_def sequence_numbers_def)
  have three: "length (log_entries (fst ?run)) = 3"
    by (simp add: setting_set_def setting_get_def out_of_bounds_def recordWrite_def
        recordRead_def record_entry_def new_logger_def)
  have "[0..<3] = [0, 1, 2::nat]"
    by (simp add: upt_rec)
  with ok three sequence_numbers_consecutive [OF ok, of "\<lambda>v. if v < 0 then ''-'' else ''+''"
      "[SetCall 1 ''Exposure'' 50, GetCall 2 ''Exposure'', SetCall 2 ''Binning'' 7,
        SetCall 1 ''Binning'' 1]"
      "[''Exposure'' \<mapsto> \<lparr>setting_name = ''Exposure'', setting_value = 100::int,
          setting_min_max = Some (1, 1000), preInitOnly = False, initialized = True\<rparr>,
       ''Binning'' \<mapsto> \<lparr>setting_name = ''Binning'', setting_value = 1,
          setting_min_max = Some (1, 1), preInitOnly = False, initialized = True\<rparr>]"]
  show ?thesis by simp
qed

subsection \<open>Setting a value out of its bounds\<close>





subsection \<open>A buffer too small for the payload\<close>

lemma write_bytes_beyond: "length bs \<le> i \<Longrightarrow> write_bytes bs mem i = mem i"
  by (simp add: write_bytes_def)

lemma write_bytes_within: "i < length bs \<Longrightarrow> write_bytes bs mem i = bs ! i"
  by (simp add: write_bytes_def)

text \<open>
  C9. When bufferSize is smaller than the encoding of the payload, by one byte or by
  more, packAndReset reports InsufficientCapacity; the memory at every offset from
  bufferSize on is as it was; and the bytes below bufferSize are the first bufferSize
  bytes of the encoding, so what is written depends on the arguments and the log only.
\<close>

theorem packAndReset_truncates:
  assumes "bufferSize < length (encode \<lparr>p_deviceName = deviceName,
      p_isSequenceImage = isSequenceImage, p_cumulativeCount = cumulativeCount,
      p_localCount = localCount, p_log = log_entries lg\<rparr>)"
  shows "fst (packAndReset encode buffer bufferSize deviceName isSequenceImage
            cumulativeCount localCount lg) = Inl InsufficientCapacity \<and>
    (\<forall>i. bufferSize \<le> i \<longrightarrow>
       fst (snd (packAndReset encode buffer bufferSize deviceName isSequenceImage
            cumulativeCount localCount lg)) i = buffer i) \<and>
    (\<forall>i. i < bufferSize \<longrightarrow>
       fst (snd (packAndReset encode buffer bufferSize deviceName isSequenceImage
            cumulativeCount localCount lg)) i =
       encode \<lparr>p_deviceName = deviceName,
         p_isSequenceImage = isSequenceImage, p_cumulativeCount = cumulativeCount,
         p_localCount = localCount, p_log = log_entries lg\<rparr> ! i)"
  using assms
  by (simp add: packAndReset_def Let_def write_bytes_beyond write_bytes_within)

theorem packAndReset_truncates_witness:
  "(2::nat) < length ((\<lambda>p. [of_nat (p_cumulativeCount p), of_nat (p_localCount p), 255])
      \<lparr>p_deviceName = ''TCamera-0'', p_isSequenceImage = True, p_cumulativeCount = 4,
        p_localCount = 1, p_log = log_entries new_logger\<rparr>) \<and>
   fst (packAndReset (\<lambda>p. [of_nat (p_cumulativeCount p), of_nat (p_localCount p), 255])
     (\<lambda>i. 0) 2 ''TCamera-0'' True 4 1 new_logger) = Inl InsufficientCapacity \<and>
   fst (snd (packAndReset (\<lambda>p. [of_nat (p_cumulativeCount p), of_nat (p_localCount p), 255])
     (\<lambda>i. 0) 2 ''TCamera-0'' True 4 1 new_logger)) 2 = 0 \<and>
   fst (snd (packAndReset (\<lambda>p. [of_nat (p_cumulativeCount p), of_nat (p_localCount p), 255])
     (\<lambda>i. 0) 2 ''TCamera-0'' True 4 1 new_logger)) 1 = 1 \<and>
   fst (snd (packAndReset (\<lambda>p. [of_nat (p_cumulativeCount p), of_nat (p_localCount p), 255])
     (\<lambda>i. 0) 2 ''TCamera-0'' True 4 1 new_logger)) 0 = 4"
proof -
  have small: "(2::nat) < length ((\<lambda>p. [of_nat (p_cumulativeCount p), of_nat (p_localCount p), 255 :: 8 word])
      \<lparr>p_deviceName = ''TCamera-0'', p_isSequenceImage = True, p_cumulativeCount = 4,
        p_localCount = 1, p_log = log_entries new_logger\<rparr>)"
    by simp
  from small
    packAndReset_truncates [where bufferSize = 2
      and encode = "\<lambda>p. [of_nat (p_cumulativeCount p), of_nat (p_localCount p), 255]"
      and deviceName = "''TCamera-0''" and isSequenceImage = True and cumulativeCount = 4
      and localCount = 1 and lg = new_logger and buffer = "\<lambda>i. 0"]
  show ?thesis by simp
qed

end
